theory Spec2Isabelle
  imports Main
begin

section \<open>Errors and values\<close>

text \<open>
  Every \<^verbatim>\<open>raise\<close> of \<^verbatim>\<open>pdt.py\<close> and every exception of the Python run time that the
  modelled code can meet is a constructor. The program raises plain \<^verbatim>\<open>Exception\<close>
  objects that differ by their message; a constructor stands for each message:
  \<open>CircularDependency\<close> for \<^verbatim>\<open>Views contain a circular dependency\<close> (the cyclic
  dependency error of the specification), \<open>NoTriggerValue\<close> for
  \<^verbatim>\<open>query did not return any value\<close> and \<open>HasTableNoResult\<close> for
  \<^verbatim>\<open>Has table sql returned no result\<close> (its query errors). \<open>DatabaseError\<close> is what
  the warehouse raises. All of them are subclasses of \<^verbatim>\<open>Exception\<close>, so an
  \<^verbatim>\<open>except Exception\<close> handler catches each of them.
\<close>

datatype error =
    UnknownSqlDialect string
  | NotDerivedTable string
  | NoTriggerValue
  | CircularDependency string
  | HasTableNoResult
  | NotPersistedDerivedTable
  | KeyError string
  | ValueError
  | IndexError
  | UnboundLocalError string
  | DatabaseError string

text \<open>The scalars a warehouse row can hold, as Python sees them.\<close>

datatype val = VNone | VBool bool | VInt int | VStr string

type_synonym row = "val list"

text \<open>Python's truth value of a scalar, as tested by \<^verbatim>\<open>if has_table:\<close>.\<close>

fun truthy :: "val \<Rightarrow> bool" where
  "truthy VNone = False"
| "truthy (VBool b) = b"
| "truthy (VInt i) = (i \<noteq> 0)"
| "truthy (VStr s) = (s \<noteq> [])"

text \<open>Python's \<^verbatim>\<open>==\<close> on scalars: \<^verbatim>\<open>bool\<close> is a subclass of \<^verbatim>\<open>int\<close>.\<close>

fun py_eq :: "val \<Rightarrow> val \<Rightarrow> bool" where
  "py_eq VNone VNone = True"
| "py_eq (VBool a) (VBool b) = (a = b)"
| "py_eq (VBool a) (VInt i) = ((if a then 1 else 0) = i)"
| "py_eq (VInt i) (VBool b) = (i = (if b then 1 else 0))"
| "py_eq (VInt i) (VInt j) = (i = j)"
| "py_eq (VStr s) (VStr t) = (s = t)"
| "py_eq _ _ = False"

section \<open>View model\<close>

text \<open>
  The \<^verbatim>\<open>derived_table\<close> block of a view declaration; each key may be absent.
\<close>

record derived_table_decl =
  sql :: "string option"
  sql_trigger_value :: "string option"
  distribution_style :: "string option"
  indexes :: "string list option"

text \<open>
  \<^verbatim>\<open>LookerView.view_object\<close>. The constructor rejects an object without the key
  \<^verbatim>\<open>view\<close> and \<^verbatim>\<open>load_lookml\<close> skips it, so every view has a name.
\<close>

record view_object =
  view :: string
  derived_table :: "derived_table_decl option"
  sql_table_name_key :: "string option"

text \<open>
  \<^verbatim>\<open>LookerContext\<close>: the two dictionaries are association lists in insertion order.
\<close>

record looker_context =
  sql_dialect :: string
  views :: "(string \<times> view_object) list"
  sql_table_name_parameters :: "(string \<times> string) list"

text \<open>\<^verbatim>\<open>d[k] = v\<close> on an insertion-ordered dictionary.\<close>

fun dict_set :: "('k \<times> 'v) list \<Rightarrow> 'k \<Rightarrow> 'v \<Rightarrow> ('k \<times> 'v) list" where
  "dict_set [] k v = [(k, v)]"
| "dict_set ((k', v') # d) k v =
     (if k' = k then (k, v) # d else (k', v') # dict_set d k v)"

definition view_name :: "view_object \<Rightarrow> string" where
  "view_name vo = view vo"

definition is_derived_table :: "view_object \<Rightarrow> bool" where
  "is_derived_table vo = (derived_table vo \<noteq> None)"

definition is_persisted_derived_table :: "view_object \<Rightarrow> bool" where
  "is_persisted_derived_table vo =
     (case derived_table vo of
        None \<Rightarrow> False
      | Some dt \<Rightarrow> sql_trigger_value dt \<noteq> None)"

definition default_schema :: "looker_context \<Rightarrow> error + string" where
  "default_schema ctx =
     (if sql_dialect ctx = ''postgresql'' then Inr ''public''
      else Inl (UnknownSqlDialect (sql_dialect ctx)))"

definition sql_schema_name :: "looker_context \<Rightarrow> view_object \<Rightarrow> error + string" where
  "sql_schema_name ctx vo =
     (if is_derived_table vo then Inr ''looker_scratch'' else default_schema ctx)"

definition sql_table_name :: "view_object \<Rightarrow> error + string" where
  "sql_table_name vo =
     (if is_derived_table vo then Inr (''_'' @ view_name vo)
      else (case sql_table_name_key vo of
              None \<Rightarrow> Inl (KeyError ''sql_table_name'')
            | Some t \<Rightarrow> Inr t))"

section \<open>Reference extraction\<close>

text \<open>
  \<^verbatim>\<open>re.finditer("\${\s*(.+)\s*}", sql)\<close>. The pattern is: a dollar sign, an opening
  brace, greedy white space, a greedy group of one or more characters other than a
  newline, greedy white space, a closing brace. The matcher is a backtracking one:
  each function below lists the ways its part of the pattern can match, in the order
  in which the matcher tries them, and the first complete way is the match.
  Templates are taken to be ASCII text.
\<close>

definition is_space :: "char \<Rightarrow> bool" where
  "is_space c =
     (c \<in> set [CHR 0x09, CHR 0x0A, CHR 0x0B, CHR 0x0C, CHR 0x0D,
               CHR 0x1C, CHR 0x1D, CHR 0x1E, CHR 0x1F, CHR 0x20])"

text \<open>\<^verbatim>\<open>\s*\<close>: what is left of the input, most white space consumed first.\<close>

fun spaces_star :: "string \<Rightarrow> string list" where
  "spaces_star [] = [[]]"
| "spaces_star (c # cs) =
     (if is_space c then spaces_star cs @ [c # cs] else [c # cs])"

text \<open>\<^verbatim>\<open>(.+)\<close>: the captured text and what is left, longest capture first.\<close>

fun dot_plus :: "string \<Rightarrow> (string \<times> string) list" where
  "dot_plus [] = []"
| "dot_plus (c # cs) =
     (if c = CHR 0x0A then []
      else map (\<lambda>(g, r). (c # g, r)) (dot_plus cs) @ [([c], cs)])"

text \<open>The closing brace: the input after it, if it is there.\<close>

fun closing_brace :: "string \<Rightarrow> string list" where
  "closing_brace [] = []"
| "closing_brace (c # cs) = (if c = CHR ''}'' then [cs] else [])"

text \<open>
  All the ways the pattern matches at the start of the input, in the matcher's
  order: group 1 and the input after the match.
\<close>

definition match_candidates :: "string \<Rightarrow> (string \<times> string) list" where
  "match_candidates s =
     (case s of
        c1 # c2 # r0 \<Rightarrow>
          (if c1 = CHR ''$'' \<and> c2 = CHR ''{'' then
             concat (map (\<lambda>r1.
               concat (map (\<lambda>(g, r2).
                 concat (map (\<lambda>r3. map (\<lambda>r4. (g, r4)) (closing_brace r3))
                   (spaces_star r2)))
                 (dot_plus r1)))
               (spaces_star r0))
           else [])
      | _ \<Rightarrow> [])"

definition match_here :: "string \<Rightarrow> (string \<times> string) option" where
  "match_here s = (case match_candidates s of [] \<Rightarrow> None | m # _ \<Rightarrow> Some m)"

lemma spaces_star_length: "r \<in> set (spaces_star s) \<Longrightarrow> length r \<le> length s"
  by (induction s arbitrary: r) (auto split: if_splits simp: le_Suc_eq)

lemma dot_plus_length: "(g, r) \<in> set (dot_plus s) \<Longrightarrow> length r < length s"
  by (induction s arbitrary: g r) (fastforce split: if_splits)+

lemma closing_brace_length: "r \<in> set (closing_brace s) \<Longrightarrow> length r < length s"
  by (cases s) (auto split: if_splits)

lemma match_candidates_length:
  assumes "(g, r) \<in> set (match_candidates s)"
  shows "length r < length s"
proof -
  from assms obtain c1 c2 r0 r1 g' r2 r3 where s: "s = c1 # c2 # r0"
    and r1: "r1 \<in> set (spaces_star r0)"
    and r2: "(g', r2) \<in> set (dot_plus r1)"
    and r3: "r3 \<in> set (spaces_star r2)"
    and r4: "r \<in> set (closing_brace r3)"
    by (auto simp: match_candidates_def split: list.splits if_splits)
  from spaces_star_length[OF r1] dot_plus_length[OF r2] spaces_star_length[OF r3]
    closing_brace_length[OF r4] s
  show ?thesis by simp
qed

lemma match_here_length: "match_here s = Some (g, r) \<Longrightarrow> length r < length s"
  by (rule match_candidates_length[of g])
     (auto simp: match_here_def split: list.splits)

text \<open>
  The successive non-overlapping matches from left to right, each given by its
  group 1: the search resumes where the last match ended, and one character
  further on where there was none.
\<close>

function finditer :: "string \<Rightarrow> string list" where
  "finditer [] = []"
| "finditer (c # cs) =
     (case match_here (c # cs) of
        Some (g, r) \<Rightarrow> g # finditer r
      | None \<Rightarrow> finditer cs)"
  by pat_completeness auto
termination
  by (relation "measure length") (auto dest: match_here_length)

text \<open>\<^verbatim>\<open>str.split(sep)\<close> for a separator of one character.\<close>

fun split_acc :: "char \<Rightarrow> string \<Rightarrow> string \<Rightarrow> string list" where
  "split_acc sep acc [] = [rev acc]"
| "split_acc sep acc (c # cs) =
     (if c = sep then rev acc # split_acc sep [] cs
      else split_acc sep (c # acc) cs)"

definition split :: "char \<Rightarrow> string \<Rightarrow> string list" where
  "split sep s = split_acc sep [] s"

text \<open>
  The body of the loop of \<^verbatim>\<open>view_dependencies\<close> over the matches. The set of
  dependency views is kept as the list of their names without repetition, in the
  order in which they were added; Python does not fix the order in which a set is
  read.
\<close>

fun add_dependencies ::
  "looker_context \<Rightarrow> string list \<Rightarrow> string list \<Rightarrow> error + string list" where
  "add_dependencies ctx [] deps = Inr deps"
| "add_dependencies ctx (param # params) deps =
     (case split (CHR ''.'') param of
        [name, _] \<Rightarrow>
          (case map_of (views ctx) name of
             None \<Rightarrow> Inl (KeyError name)
           | Some v \<Rightarrow>
               add_dependencies ctx params
                 (if view_name v \<in> set deps then deps else deps @ [view_name v]))
      | _ \<Rightarrow> Inl ValueError)"

definition view_dependencies :: "looker_context \<Rightarrow> view_object \<Rightarrow> error + string list" where
  "view_dependencies ctx vo =
     (case derived_table vo of
        None \<Rightarrow> Inr []
      | Some dt \<Rightarrow>
          (if is_persisted_derived_table vo then
             (case sql dt of
                None \<Rightarrow> Inl (KeyError ''sql'')
              | Some s \<Rightarrow> add_dependencies ctx (finditer s) [])
           else Inr []))"

section \<open>Dependency graph and topological order\<close>

text \<open>
  \<^verbatim>\<open>adjacency_lists\<close> is a \<^verbatim>\<open>defaultdict(list)\<close>: an association list in insertion
  order, where a missing key reads as the empty list.
\<close>

type_synonym adjacency = "(string \<times> string list) list"

text \<open>\<^verbatim>\<open>adjacency_lists[k].append(w)\<close>.\<close>

fun adjacency_append :: "adjacency \<Rightarrow> string \<Rightarrow> string \<Rightarrow> adjacency" where
  "adjacency_append [] k w = [(k, [w])]"
| "adjacency_append ((k', ws) # adj) k w =
     (if k' = k then (k', ws @ [w]) # adj else (k', ws) # adjacency_append adj k w)"

text \<open>\<^verbatim>\<open>adjacency_lists[v]\<close>.\<close>

definition adjacent :: "adjacency \<Rightarrow> string \<Rightarrow> string list" where
  "adjacent adj v = (case map_of adj v of None \<Rightarrow> [] | Some ws \<Rightarrow> ws)"

text \<open>
  The two loops that fill the adjacency lists: over the views, and for each view
  over its dependencies.
\<close>

fun append_dependencies :: "adjacency \<Rightarrow> string \<Rightarrow> string list \<Rightarrow> adjacency" where
  "append_dependencies adj k [] = adj"
| "append_dependencies adj k (w # ws) = append_dependencies (adjacency_append adj k w) k ws"

fun adjacency_loop ::
  "looker_context \<Rightarrow> view_object list \<Rightarrow> adjacency \<Rightarrow> error + adjacency" where
  "adjacency_loop ctx [] adj = Inr adj"
| "adjacency_loop ctx (vo # vos) adj =
     (case view_dependencies ctx vo of
        Inl e \<Rightarrow> Inl e
      | Inr deps \<Rightarrow> adjacency_loop ctx vos (append_dependencies adj (view_name vo) deps))"

definition adjacency_lists :: "looker_context \<Rightarrow> error + adjacency" where
  "adjacency_lists ctx = adjacency_loop ctx (map snd (views ctx)) []"

text \<open>
  The three variables that the nested function \<^verbatim>\<open>visit\<close> shares with
  \<^verbatim>\<open>view_topological_order\<close>.
\<close>

record dfs_state =
  ordered_view_names :: "string list"
  permanent_visit_set :: "string set"
  temporary_visit_set :: "string set"

text \<open>The names that occur in the adjacency lists: a finite set.\<close>

definition graph_nodes :: "adjacency \<Rightarrow> string set" where
  "graph_nodes adj = fst ` set adj \<union> (\<Union>(k, ws) \<in> set adj. set ws)"

text \<open>
  \<^verbatim>\<open>visit\<close>, with its loop over the adjacent views as a second function. The
  exception of a nested call leaves every enclosing call at once.
\<close>

function visit :: "adjacency \<Rightarrow> string \<Rightarrow> dfs_state \<Rightarrow> error + dfs_state"
  and visit_adjacent :: "adjacency \<Rightarrow> string list \<Rightarrow> dfs_state \<Rightarrow> error + dfs_state"
where
  "visit adj v st =
     (if v \<in> permanent_visit_set st then Inr st
      else if v \<in> temporary_visit_set st then Inl (CircularDependency v)
      else
        (case visit_adjacent adj (adjacent adj v)
                (st\<lparr>temporary_visit_set := insert v (temporary_visit_set st)\<rparr>) of
           Inl e \<Rightarrow> Inl e
         | Inr st' \<Rightarrow>
             Inr (st'\<lparr>temporary_visit_set := temporary_visit_set st' - {v},
                      permanent_visit_set := insert v (permanent_visit_set st'),
                      ordered_view_names := v # ordered_view_names st'\<rparr>)))"
| "visit_adjacent adj [] st = Inr st"
| "visit_adjacent adj (w # ws) st =
     (case visit adj w st of
        Inl e \<Rightarrow> Inl e
      | Inr st' \<Rightarrow> visit_adjacent adj ws st')"
  by pat_completeness auto


text \<open>
  Termination: a visit that descends marks a name that was not marked, and a visit
  that returns leaves the marks as it found them, so the names not marked
  temporarily become fewer along every chain of nested calls.
\<close>

lemma visit_temporary_partial:
  "visit_visit_adjacent_dom (Inl (adj, v, st)) \<Longrightarrow> visit adj v st = Inr st' \<Longrightarrow>
     temporary_visit_set st' = temporary_visit_set st"
  "visit_visit_adjacent_dom (Inr (adj, ws, st)) \<Longrightarrow> visit_adjacent adj ws st = Inr st'' \<Longrightarrow>
     temporary_visit_set st'' = temporary_visit_set st"
proof (induction adj v st and adj ws st arbitrary: st' and st'' rule: visit_visit_adjacent.pinduct)
  case (1 adj v st)
  show ?case
  proof (cases "v \<in> permanent_visit_set st")
    case True
    with 1(1,3) show ?thesis by (simp add: visit.psimps)
  next
    case False
    note notperm = this
    show ?thesis
    proof (cases "v \<in> temporary_visit_set st")
      case True
      with notperm 1(1,3) show ?thesis by (simp add: visit.psimps)
    next
      case False
      let ?st1 = "st\<lparr>temporary_visit_set := insert v (temporary_visit_set st)\<rparr>"
      from notperm False 1(1,3) obtain st1 where
        va: "visit_adjacent adj (adjacent adj v) ?st1 = Inr st1" and
        st': "st' = st1\<lparr>temporary_visit_set := temporary_visit_set st1 - {v},
                      permanent_visit_set := insert v (permanent_visit_set st1),
                      ordered_view_names := v # ordered_view_names st1\<rparr>"
        by (simp add: visit.psimps split: sum.splits)
      from 1(2)[OF notperm False va] have "temporary_visit_set st1 = insert v (temporary_visit_set st)"
        by simp
      with st' False show ?thesis by simp
    qed
  qed
next
  case (2 adj st)
  then show ?case by (simp add: visit_adjacent.psimps)
next
  case (3 adj w ws st)
  from 3(1,4) obtain st1 where v: "visit adj w st = Inr st1"
    and va: "visit_adjacent adj ws st1 = Inr st''"
    by (simp add: visit_adjacent.psimps split: sum.splits)
  from 3(2)[OF v] 3(3)[OF v va] show ?case by simp
qed

lemma adjacent_subset: "set (adjacent adj v) \<subseteq> graph_nodes adj"
proof
  fix w assume "w \<in> set (adjacent adj v)"
  then obtain ws where "map_of adj v = Some ws" "w \<in> set ws"
    by (cases "map_of adj v") (auto simp: adjacent_def)
  then have "(v, ws) \<in> set adj" "w \<in> set ws" by (auto dest: map_of_SomeD)
  then show "w \<in> graph_nodes adj" unfolding graph_nodes_def by blast
qed

lemma finite_graph_nodes: "finite (graph_nodes adj)"
  unfolding graph_nodes_def by (intro finite_UnI finite_imageI finite_UN_I) auto

definition visit_measure ::
  "(adjacency \<times> string \<times> dfs_state) + (adjacency \<times> string list \<times> dfs_state) \<Rightarrow> nat \<times> nat" where
  "visit_measure x =
     (case x of
        Inl (adj, v, st) \<Rightarrow> (card (insert v (graph_nodes adj) - temporary_visit_set st), 0)
      | Inr (adj, ws, st) \<Rightarrow>
          (card (set ws \<union> graph_nodes adj - temporary_visit_set st), Suc (length ws)))"

lemma visit_measure_simps:
  "visit_measure (Inl (adj, v, st)) = (card (insert v (graph_nodes adj) - temporary_visit_set st), 0)"
  "visit_measure (Inr (adj, ws, st)) =
     (card (set ws \<union> graph_nodes adj - temporary_visit_set st), Suc (length ws))"
  by (simp_all add: visit_measure_def)

termination visit
proof (relation "inv_image (less_than <*lex*> less_than) visit_measure", goal_cases)
  case 1
  show ?case by (intro wf_inv_image wf_lex_prod wf_less_than)
next
  case (2 adj v st)
  have sub: "set (adjacent adj v) \<union> graph_nodes adj = graph_nodes adj"
    using adjacent_subset[of adj v] by blast
  have "graph_nodes adj - insert v (temporary_visit_set st)
          \<subset> insert v (graph_nodes adj) - temporary_visit_set st"
    using 2 by blast
  then have "card (graph_nodes adj - insert v (temporary_visit_set st))
          < card (insert v (graph_nodes adj) - temporary_visit_set st)"
    by (intro psubset_card_mono) (simp_all add: finite_graph_nodes)
  then show ?case by (simp add: visit_measure_simps sub)
next
  case (3 adj w ws st)
  have "card (insert w (graph_nodes adj) - temporary_visit_set st)
          \<le> card (insert w (set ws \<union> graph_nodes adj) - temporary_visit_set st)"
    by (intro card_mono) (auto simp: finite_graph_nodes)
  then show ?case by (simp add: visit_measure_simps) linarith
next
  case (4 adj w ws st st')
  then have "temporary_visit_set st' = temporary_visit_set st"
    using visit_temporary_partial(1) by blast
  moreover have "card (set ws \<union> graph_nodes adj - temporary_visit_set st)
          \<le> card (insert w (set ws \<union> graph_nodes adj) - temporary_visit_set st)"
    by (intro card_mono) (auto simp: finite_graph_nodes)
  ultimately show ?case by (simp add: visit_measure_simps) linarith
qed

declare visit.simps [simp del]

text \<open>
  The entry loop of \<^verbatim>\<open>view_topological_order\<close>. The flag \<^verbatim>\<open>done\<close> is never
  cleared, so the \<^verbatim>\<open>while True\<close> around it runs the loop over the views once.
\<close>

fun visit_unvisited ::
  "adjacency \<Rightarrow> view_object list \<Rightarrow> dfs_state \<Rightarrow> error + dfs_state" where
  "visit_unvisited adj [] st = Inr st"
| "visit_unvisited adj (vo # vos) st =
     (if view_name vo \<in> permanent_visit_set st then visit_unvisited adj vos st
      else (case visit adj (view_name vo) st of
              Inl e \<Rightarrow> Inl e
            | Inr st' \<Rightarrow> visit_unvisited adj vos st'))"

definition initial_dfs_state :: dfs_state where
  "initial_dfs_state =
     \<lparr>ordered_view_names = [], permanent_visit_set = {}, temporary_visit_set = {}\<rparr>"

text \<open>
  \<^verbatim>\<open>visit\<close> inserts each finished view at the front of \<^verbatim>\<open>ordered_view_names\<close> and
  the property reverses the list before returning it.
\<close>

definition view_topological_order :: "looker_context \<Rightarrow> error + string list" where
  "view_topological_order ctx =
     (case adjacency_lists ctx of
        Inl e \<Rightarrow> Inl e
      | Inr adj \<Rightarrow>
          (case visit_unvisited adj (map snd (views ctx)) initial_dfs_state of
             Inl e \<Rightarrow> Inl e
           | Inr st \<Rightarrow> Inr (rev (ordered_view_names st))))"

text \<open>
  The dependency graph, read from the adjacency lists and read from the views: an
  edge goes from a view to each view its template refers to.
\<close>

definition dependency_edges :: "adjacency \<Rightarrow> (string \<times> string) set" where
  "dependency_edges adj = {(v, w). w \<in> set (adjacent adj v)}"

definition depends_on :: "looker_context \<Rightarrow> (string \<times> string) set" where
  "depends_on ctx =
     {(v, d). \<exists>vo deps. vo \<in> set (map snd (views ctx)) \<and> view_name vo = v
                \<and> view_dependencies ctx vo = Inr deps \<and> d \<in> set deps}"

text \<open>\<open>w\<close> stands before the first \<open>v\<close> of the list.\<close>

definition precedes :: "string \<Rightarrow> string \<Rightarrow> string list \<Rightarrow> bool" where
  "precedes w v xs = (v \<in> set xs \<and> w \<in> set (takeWhile (\<lambda>x. x \<noteq> v) xs))"

text \<open>
  What holds of the state between the calls of \<^verbatim>\<open>visit\<close>: the finished views are
  the permanent set, none of them is on the path being explored, and each stands
  after the views it refers to.
\<close>

definition dfs_invariant :: "adjacency \<Rightarrow> dfs_state \<Rightarrow> bool" where
  "dfs_invariant adj st =
     (distinct (ordered_view_names st)
      \<and> set (ordered_view_names st) = permanent_visit_set st
      \<and> permanent_visit_set st \<inter> temporary_visit_set st = {}
      \<and> (\<forall>v \<in> permanent_visit_set st. \<forall>w \<in> set (adjacent adj v).
            precedes w v (rev (ordered_view_names st))))"

text \<open>What a successful visit leaves behind.\<close>

definition visited ::
  "adjacency \<Rightarrow> dfs_state \<Rightarrow> string set \<Rightarrow> dfs_state \<Rightarrow> bool" where
  "visited adj st vs st' =
     (dfs_invariant adj st'
      \<and> temporary_visit_set st' = temporary_visit_set st
      \<and> permanent_visit_set st \<subseteq> permanent_visit_set st'
      \<and> vs \<subseteq> permanent_visit_set st')"

text \<open>The exception names a view that lies on a cycle.\<close>

definition on_cycle :: "adjacency \<Rightarrow> error \<Rightarrow> bool" where
  "on_cycle adj e = (\<exists>u. e = CircularDependency u \<and> (u, u) \<in> (dependency_edges adj)\<^sup>+)"

section \<open>Loading views\<close>

text \<open>
  \<^verbatim>\<open>LookerView.__init__\<close> followed by \<^verbatim>\<open>self.views[view.view_name] = view\<close>, for one
  declaration that has the key \<^verbatim>\<open>view\<close>.
\<close>

definition register_view :: "looker_context \<Rightarrow> view_object \<Rightarrow> error + looker_context" where
  "register_view ctx vo =
     (case sql_schema_name ctx vo of
        Inl e \<Rightarrow> Inl e
      | Inr schema \<Rightarrow>
          (case sql_table_name vo of
             Inl e \<Rightarrow> Inl e
           | Inr table \<Rightarrow>
               Inr (ctx\<lparr>sql_table_name_parameters :=
                          dict_set (sql_table_name_parameters ctx)
                            (view_name vo @ ''.SQL_TABLE_NAME'') (schema @ ''.'' @ table),
                        views := dict_set (views ctx) (view_name vo) vo\<rparr>)))"

fun load_lookml :: "looker_context \<Rightarrow> view_object list \<Rightarrow> error + looker_context" where
  "load_lookml ctx [] = Inr ctx"
| "load_lookml ctx (vo # vos) =
     (case register_view ctx vo of
        Inl e \<Rightarrow> Inl e
      | Inr ctx' \<Rightarrow> load_lookml ctx' vos)"

section \<open>SQL text\<close>

definition nl :: string where
  "nl = [CHR 0x0A]"

definition quote :: string where
  "quote = [CHR 0x27]"

definition indent :: "nat \<Rightarrow> string" where
  "indent n = replicate n (CHR '' '')"

text \<open>\<^verbatim>\<open>pattern in sql\<close>: the substring test.\<close>

fun contains :: "string \<Rightarrow> string \<Rightarrow> bool" where
  "contains p [] = (p = [])"
| "contains p (c # cs) = (take (length p) (c # cs) = p \<or> contains p cs)"

text \<open>
  \<^verbatim>\<open>str.replace(old, new)\<close>: the non-overlapping occurrences from left to right; an
  empty \<^verbatim>\<open>old\<close> matches before every character and at the end.
\<close>

function str_replace :: "string \<Rightarrow> string \<Rightarrow> string \<Rightarrow> string" where
  "str_replace old new s =
     (if old = [] then new @ concat (map (\<lambda>c. c # new) s)
      else if s = [] then []
      else if take (length old) s = old
        then new @ str_replace old new (drop (length old) s)
      else hd s # str_replace old new (tl s))"
  by pat_completeness auto
termination
  by (relation "measure (\<lambda>(old, new, s). length s)") auto

declare str_replace.simps [simp del]

text \<open>\<^verbatim>\<open>','.join(xs)\<close>.\<close>

fun join :: "string \<Rightarrow> string list \<Rightarrow> string" where
  "join sep [] = []"
| "join sep [x] = x"
| "join sep (x # y # ys) = x @ sep @ join sep (y # ys)"

definition all_parameters :: "looker_context \<Rightarrow> (string \<times> string) list" where
  "all_parameters ctx = sql_table_name_parameters ctx"

text \<open>The loop of \<^verbatim>\<open>regenerate_derived_table_sql\<close> over \<^verbatim>\<open>all_parameters.items()\<close>.\<close>

fun substitute_parameters :: "(string \<times> string) list \<Rightarrow> string \<Rightarrow> string" where
  "substitute_parameters [] s = s"
| "substitute_parameters ((name, value) # ps) s =
     (let pattern = ''${'' @ name @ ''}''
      in substitute_parameters ps
           (if contains pattern s then str_replace pattern value s else s))"


definition regenerate_derived_table_sql_text ::
  "looker_context \<Rightarrow> view_object \<Rightarrow> derived_table_decl \<Rightarrow> string \<Rightarrow> error + string" where
  "regenerate_derived_table_sql_text ctx vo dt s =
     (if sql_dialect ctx = ''postgresql'' then
        (case sql_schema_name ctx vo of
           Inl e \<Rightarrow> Inl e
         | Inr schema \<Rightarrow>
             (case sql_table_name vo of
                Inl e \<Rightarrow> Inl e
              | Inr table \<Rightarrow>
                  Inr (nl @ indent 16 @ ''DROP TABLE IF EXISTS '' @ schema @ ''.'' @ table @ '';''
                     @ nl @ indent 16 @ ''CREATE TABLE '' @ schema @ ''.'' @ table
                     @ nl @ indent 20 @ ''DISTSTYLE ''
                          @ (case distribution_style dt of None \<Rightarrow> ''ALL'' | Some d \<Rightarrow> d)
                     @ nl @ indent 20
                          @ (case indexes dt of
                               None \<Rightarrow> []
                             | Some ixs \<Rightarrow> ''INTERLEAVED SORTKEY('' @ join '','' ixs @ '')'')
                          @ '' AS '' @ s @ '';''
                     @ nl @ indent 12)))
      else Inl (UnknownSqlDialect (sql_dialect ctx)))"

definition regenerate_derived_table_sql ::
  "looker_context \<Rightarrow> view_object \<Rightarrow> error + string" where
  "regenerate_derived_table_sql ctx vo =
     (if is_persisted_derived_table vo then
        (case derived_table vo of
           None \<Rightarrow> Inl (KeyError ''derived_table'')
         | Some dt \<Rightarrow>
             (case sql dt of
                None \<Rightarrow> Inl (KeyError ''sql'')
              | Some s \<Rightarrow>
                  regenerate_derived_table_sql_text ctx vo dt
                    (substitute_parameters (all_parameters ctx)
                       (str_replace ''%'' ''%%'' s))))
      else Inl (NotDerivedTable (view_name vo)))"

definition has_table_sql :: "looker_context \<Rightarrow> string \<Rightarrow> string \<Rightarrow> error + string" where
  "has_table_sql ctx table schema =
     (if sql_dialect ctx = ''postgresql'' then
        Inr (nl @ indent 16 @ ''SELECT EXISTS (''
           @ nl @ indent 20 @ ''SELECT 1''
           @ nl @ indent 20 @ ''FROM information_schema.tables''
           @ nl @ indent 20 @ ''WHERE table_schema = '' @ quote @ schema @ quote
           @ nl @ indent 20 @ ''AND table_name = '' @ quote @ table @ quote
           @ nl @ indent 16 @ '');''
           @ nl @ indent 12)
      else Inl (UnknownSqlDialect (sql_dialect ctx)))"

definition create_schema_sql :: "looker_context \<Rightarrow> string \<Rightarrow> error + string" where
  "create_schema_sql ctx schema =
     (if sql_dialect ctx = ''postgresql'' then
        Inr (nl @ indent 16 @ ''CREATE SCHEMA IF NOT EXISTS '' @ schema @ '';''
           @ nl @ indent 12)
      else Inl (UnknownSqlDialect (sql_dialect ctx)))"

section \<open>Warehouse connection and trigger value store\<close>

text \<open>
  The warehouse is a collaborator: a connection is given by what its operations
  answer in a warehouse state \<open>'d\<close> and by the state they leave. Each operation can
  raise. \<^verbatim>\<open>connection.begin()\<close> returns a transaction object, known here by a number;
  \<^verbatim>\<open>commit\<close> and \<^verbatim>\<open>rollback\<close> are methods of that object.
\<close>

record 'd connection =
  conn_execute :: "string \<Rightarrow> 'd \<Rightarrow> (error + row list) \<times> 'd"
  conn_begin :: "'d \<Rightarrow> (error + nat) \<times> 'd"
  conn_commit :: "nat \<Rightarrow> 'd \<Rightarrow> error option \<times> 'd"
  conn_rollback :: "nat \<Rightarrow> 'd \<Rightarrow> error option \<times> 'd"

text \<open>
  What the program asks of its collaborators, in the order in which it asks:
  statements sent to the warehouse, transaction boundaries, and writes of the
  trigger value store.
\<close>

datatype event =
    Execute string
  | Begin
  | Commit nat
  | Rollback nat
  | WriteTriggerValue string val

text \<open>
  The trigger value store is the set of files \<^verbatim>\<open><view_name>.pickle\<close>: a map from view
  names to the pickled scalar. Reading and writing a file are taken to succeed.
\<close>

record 'd world =
  warehouse :: 'd
  trigger_values :: "string \<rightharpoonup> val"
  events :: "event list"

definition execute ::
  "'d connection \<Rightarrow> string \<Rightarrow> 'd world \<Rightarrow> (error + row list) \<times> 'd world" where
  "execute conn stmt w =
     (case conn_execute conn stmt (warehouse w) of
        (r, d) \<Rightarrow> (r, w\<lparr>warehouse := d, events := events w @ [Execute stmt]\<rparr>))"

definition begin_transaction :: "'d connection \<Rightarrow> 'd world \<Rightarrow> (error + nat) \<times> 'd world" where
  "begin_transaction conn w =
     (case conn_begin conn (warehouse w) of
        (r, d) \<Rightarrow> (r, w\<lparr>warehouse := d, events := events w @ [Begin]\<rparr>))"

definition commit :: "'d connection \<Rightarrow> nat \<Rightarrow> 'd world \<Rightarrow> error option \<times> 'd world" where
  "commit conn t w =
     (case conn_commit conn t (warehouse w) of
        (r, d) \<Rightarrow> (r, w\<lparr>warehouse := d, events := events w @ [Commit t]\<rparr>))"

definition rollback :: "'d connection \<Rightarrow> nat \<Rightarrow> 'd world \<Rightarrow> error option \<times> 'd world" where
  "rollback conn t w =
     (case conn_rollback conn t (warehouse w) of
        (r, d) \<Rightarrow> (r, w\<lparr>warehouse := d, events := events w @ [Rollback t]\<rparr>))"

text \<open>
  The getter of \<^verbatim>\<open>LookerView.trigger_value\<close>: \<^verbatim>\<open>None\<close> when the file is not there.
\<close>

definition trigger_value :: "'d world \<Rightarrow> view_object \<Rightarrow> val" where
  "trigger_value w vo =
     (case trigger_values w (view_name vo) of None \<Rightarrow> VNone | Some x \<Rightarrow> x)"

text \<open>The setter of \<^verbatim>\<open>LookerView.trigger_value\<close>.\<close>

definition set_trigger_value :: "view_object \<Rightarrow> val \<Rightarrow> 'd world \<Rightarrow> 'd world" where
  "set_trigger_value vo x w =
     w\<lparr>trigger_values := (trigger_values w)(view_name vo \<mapsto> x),
       events := events w @ [WriteTriggerValue (view_name vo) x]\<rparr>"

text \<open>
  \<^verbatim>\<open>result.rowcount\<close>: for a query, the driver reports the number of rows it returns.
\<close>

definition rowcount :: "row list \<Rightarrow> int" where
  "rowcount result = int (length result)"

text \<open>
  \<^verbatim>\<open>for row in result: return row[0]\<close>. A result without rows leaves the loop at once
  and the function returns \<^verbatim>\<open>None\<close>; a row without columns raises \<^verbatim>\<open>IndexError\<close>.
\<close>

definition first_row_first_column :: "row list \<Rightarrow> error + val" where
  "first_row_first_column result =
     (case result of
        [] \<Rightarrow> Inr VNone
      | r # _ \<Rightarrow> (case r of [] \<Rightarrow> Inl IndexError | c # _ \<Rightarrow> Inr c))"

definition get_latest_sql_trigger_value ::
  "'d connection \<Rightarrow> view_object \<Rightarrow> 'd world \<Rightarrow> (error + val) \<times> 'd world" where
  "get_latest_sql_trigger_value conn vo w =
     (case derived_table vo of
        None \<Rightarrow> (Inl (KeyError ''derived_table''), w)
      | Some dt \<Rightarrow>
          (case sql_trigger_value dt of
             None \<Rightarrow> (Inl (KeyError ''sql_trigger_value''), w)
           | Some q \<Rightarrow>
               (case execute conn q w of
                  (Inl e, w') \<Rightarrow> (Inl e, w')
                | (Inr result, w') \<Rightarrow>
                    (if rowcount result > 0 then (first_row_first_column result, w')
                     else (Inl NoTriggerValue, w')))))"

definition regenerate_persisted_derived_table ::
  "'d connection \<Rightarrow> looker_context \<Rightarrow> view_object \<Rightarrow> 'd world \<Rightarrow> (error + unit) \<times> 'd world" where
  "regenerate_persisted_derived_table conn ctx vo w =
     (case regenerate_derived_table_sql ctx vo of
        Inl e \<Rightarrow> (Inl e, w)
      | Inr stmt \<Rightarrow>
          (case execute conn stmt w of
             (Inl e, w') \<Rightarrow> (Inl e, w')
           | (Inr _, w') \<Rightarrow> (Inr (), w')))"

definition has_table ::
  "'d connection \<Rightarrow> looker_context \<Rightarrow> string \<Rightarrow> string \<Rightarrow> 'd world \<Rightarrow> (error + val) \<times> 'd world" where
  "has_table conn ctx table schema w =
     (case has_table_sql ctx table schema of
        Inl e \<Rightarrow> (Inl e, w)
      | Inr q \<Rightarrow>
          (case execute conn q w of
             (Inl e, w') \<Rightarrow> (Inl e, w')
           | (Inr result, w') \<Rightarrow>
               (if rowcount result > 0 then (first_row_first_column result, w')
                else (Inl HasTableNoResult, w'))))"

definition create_schema ::
  "'d connection \<Rightarrow> looker_context \<Rightarrow> string \<Rightarrow> 'd world \<Rightarrow> (error + unit) \<times> 'd world" where
  "create_schema conn ctx schema w =
     (case create_schema_sql ctx schema of
        Inl e \<Rightarrow> (Inl e, w)
      | Inr stmt \<Rightarrow>
          (case execute conn stmt w of
             (Inl e, w') \<Rightarrow> (Inl e, w')
           | (Inr _, w') \<Rightarrow> (Inr (), w')))"

definition create_looker_scratch_schema ::
  "'d connection \<Rightarrow> looker_context \<Rightarrow> 'd world \<Rightarrow> (error + unit) \<times> 'd world" where
  "create_looker_scratch_schema conn ctx w = create_schema conn ctx ''looker_scratch'' w"

section \<open>Regeneration driver\<close>

text \<open>
  The tail of \<^verbatim>\<open>trigger_view\<close>, from \<^verbatim>\<open>Attempting to regenerate\<close> on. The local
  variable \<^verbatim>\<open>latest_trigger_value\<close> is assigned only in the branch where the table
  exists: \<open>None\<close> stands for the variable not being bound, and reading it then raises
  \<^verbatim>\<open>UnboundLocalError\<close>.
\<close>

definition regenerate_and_update ::
  "'d connection \<Rightarrow> looker_context \<Rightarrow> view_object \<Rightarrow> val option \<Rightarrow> 'd world
     \<Rightarrow> (error + unit) \<times> 'd world" where
  "regenerate_and_update conn ctx vo latest_trigger_value w =
     (case regenerate_persisted_derived_table conn ctx vo w of
        (Inl e, w') \<Rightarrow> (Inl e, w')
      | (Inr _, w') \<Rightarrow>
          (case latest_trigger_value of
             None \<Rightarrow> (Inl (UnboundLocalError ''latest_trigger_value''), w')
           | Some x \<Rightarrow> (Inr (), set_trigger_value vo x w')))"

text \<open>
  \<^verbatim>\<open>trigger_view\<close>. Its handler logs and raises the exception again, so an error of
  the body is the error of the function.
\<close>

definition trigger_view ::
  "'d connection \<Rightarrow> looker_context \<Rightarrow> view_object \<Rightarrow> 'd world \<Rightarrow> (error + unit) \<times> 'd world" where
  "trigger_view conn ctx vo w =
     (if \<not> is_persisted_derived_table vo then (Inl NotPersistedDerivedTable, w)
      else
        (case sql_table_name vo of
           Inl e \<Rightarrow> (Inl e, w)
         | Inr table \<Rightarrow>
             (case sql_schema_name ctx vo of
                Inl e \<Rightarrow> (Inl e, w)
              | Inr schema \<Rightarrow>
                  (case has_table conn ctx table schema w of
                     (Inl e, w1) \<Rightarrow> (Inl e, w1)
                   | (Inr table_exists, w1) \<Rightarrow>
                       (if truthy table_exists then
                          (case get_latest_sql_trigger_value conn vo w1 of
                             (Inl e, w2) \<Rightarrow> (Inl e, w2)
                           | (Inr latest, w2) \<Rightarrow>
                               (if trigger_value w2 vo \<noteq> VNone
                                   \<and> py_eq (trigger_value w2 vo) latest
                                then (Inr (), w2)
                                else regenerate_and_update conn ctx vo (Some latest) w2))
                        else regenerate_and_update conn ctx vo None w1)))))"

text \<open>
  One round of the loop of \<^verbatim>\<open>trigger_all\<close> for a persisted derived table:
  \<^verbatim>\<open>transaction = connection.begin()\<close>, \<^verbatim>\<open>self.trigger_view(connection, view)\<close>,
  \<^verbatim>\<open>transaction.commit()\<close>. The local variable \<^verbatim>\<open>transaction\<close> is shared by all the
  rounds and by the handler: \<open>None\<close> stands for its not being bound. The result is the
  exception that left the round, if any, the variable, and the world.
\<close>

definition trigger_transaction ::
  "'d connection \<Rightarrow> looker_context \<Rightarrow> view_object \<Rightarrow> nat option \<Rightarrow> 'd world
     \<Rightarrow> error option \<times> nat option \<times> 'd world" where
  "trigger_transaction conn ctx vo transaction w =
     (case begin_transaction conn w of
        (Inl e, w1) \<Rightarrow> (Some e, transaction, w1)
      | (Inr t, w1) \<Rightarrow>
          (case trigger_view conn ctx vo w1 of
             (Inl e, w2) \<Rightarrow> (Some e, Some t, w2)
           | (Inr _, w2) \<Rightarrow>
               (case commit conn t w2 of
                  (Some e, w3) \<Rightarrow> (Some e, Some t, w3)
                | (None, w3) \<Rightarrow> (None, Some t, w3))))"

text \<open>The loop of \<^verbatim>\<open>trigger_all\<close> over the order: an exception leaves it at once.\<close>

fun trigger_loop ::
  "'d connection \<Rightarrow> looker_context \<Rightarrow> string list \<Rightarrow> nat option \<Rightarrow> 'd world
     \<Rightarrow> error option \<times> nat option \<times> 'd world" where
  "trigger_loop conn ctx [] transaction w = (None, transaction, w)"
| "trigger_loop conn ctx (name # names) transaction w =
     (case map_of (views ctx) name of
        None \<Rightarrow> (Some (KeyError name), transaction, w)
      | Some vo \<Rightarrow>
          (if \<not> is_persisted_derived_table vo then trigger_loop conn ctx names transaction w
           else
             (case trigger_transaction conn ctx vo transaction w of
                (Some e, transaction', w') \<Rightarrow> (Some e, transaction', w')
              | (None, transaction', w') \<Rightarrow> trigger_loop conn ctx names transaction' w')))"

text \<open>The body of the \<^verbatim>\<open>try\<close> of \<^verbatim>\<open>trigger_all\<close>.\<close>

definition trigger_all_body ::
  "'d connection \<Rightarrow> looker_context \<Rightarrow> string list \<Rightarrow> 'd world
     \<Rightarrow> error option \<times> nat option \<times> 'd world" where
  "trigger_all_body conn ctx view_name_order w =
     (case create_looker_scratch_schema conn ctx w of
        (Inl e, w') \<Rightarrow> (Some e, None, w')
      | (Inr _, w') \<Rightarrow> trigger_loop conn ctx view_name_order None w')"

text \<open>
  The handler of \<^verbatim>\<open>trigger_all\<close>: it logs and calls \<^verbatim>\<open>transaction.rollback()\<close>. It does
  not raise the caught exception again; what leaves it is an exception of its own
  statements, if any.
\<close>

definition trigger_all_handler ::
  "'d connection \<Rightarrow> nat option \<Rightarrow> 'd world \<Rightarrow> (error + unit) \<times> 'd world" where
  "trigger_all_handler conn transaction w =
     (case transaction of
        None \<Rightarrow> (Inl (UnboundLocalError ''transaction''), w)
      | Some t \<Rightarrow>
          (case rollback conn t w of
             (None, w') \<Rightarrow> (Inr (), w')
           | (Some e, w') \<Rightarrow> (Inl e, w')))"

text \<open>
  \<^verbatim>\<open>LookerContext.trigger_all\<close> on an open connection. The order is computed before
  the connection is used.
\<close>

definition trigger_all ::
  "'d connection \<Rightarrow> looker_context \<Rightarrow> 'd world \<Rightarrow> (error + unit) \<times> 'd world" where
  "trigger_all conn ctx w =
     (case view_topological_order ctx of
        Inl e \<Rightarrow> (Inl e, w)
      | Inr view_name_order \<Rightarrow>
          (case trigger_all_body conn ctx view_name_order w of
             (None, _, w') \<Rightarrow> (Inr (), w')
           | (Some e, transaction, w') \<Rightarrow> trigger_all_handler conn transaction w'))"

section \<open>Example inputs\<close>

text \<open>
  A connection that answers the statements it is sent from a prepared list, one
  answer per statement, and whose transactions always begin, commit and roll back.
\<close>

definition scripted_connection :: "(error + row list) list connection" where
  "scripted_connection =
     \<lparr>conn_execute = (\<lambda>stmt d. case d of
                                  [] \<Rightarrow> (Inl (DatabaseError ''no answer''), [])
                                | r # rs \<Rightarrow> (r, rs)),
      conn_begin = (\<lambda>d. (Inr (length d), d)),
      conn_commit = (\<lambda>t d. (None, d)),
      conn_rollback = (\<lambda>t d. (None, d))\<rparr>"

definition scripted_world ::
  "(error + row list) list \<Rightarrow> (string \<rightharpoonup> val) \<Rightarrow> (error + row list) list world" where
  "scripted_world answers store = \<lparr>warehouse = answers, trigger_values = store, events = []\<rparr>"

text \<open>A persisted derived table with the given name, template and trigger query.\<close>

definition pdt_view :: "string \<Rightarrow> string \<Rightarrow> string \<Rightarrow> view_object" where
  "pdt_view name template trigger_query =
     \<lparr>view = name,
      derived_table = Some \<lparr>sql = Some template, sql_trigger_value = Some trigger_query,
                             distribution_style = None, indexes = None\<rparr>,
      sql_table_name_key = None\<rparr>"

definition postgresql_context :: "view_object list \<Rightarrow> looker_context" where
  "postgresql_context vos =
     \<lparr>sql_dialect = ''postgresql'',
      views = map (\<lambda>vo. (view_name vo, vo)) vos,
      sql_table_name_parameters =
        map (\<lambda>vo. (view_name vo @ ''.SQL_TABLE_NAME'', ''looker_scratch._'' @ view_name vo)) vos\<rparr>"

text \<open>Two readings of a list of events: the statements sent, and everything else.\<close>

fun executed_statements :: "event list \<Rightarrow> string list" where
  "executed_statements [] = []"
| "executed_statements (Execute s # es) = s # executed_statements es"
| "executed_statements (e # es) = executed_statements es"

fun non_statements :: "event list \<Rightarrow> event list" where
  "non_statements [] = []"
| "non_statements (Execute s # es) = non_statements es"
| "non_statements (e # es) = e # non_statements es"

section \<open>Properties of the staleness queries\<close>

lemma execute_scripted:
  "execute scripted_connection stmt (scripted_world (r # rs) store) =
     (r, \<lparr>warehouse = rs, trigger_values = store, events = [Execute stmt]\<rparr>)"
  by (simp add: execute_def scripted_connection_def scripted_world_def)

text \<open>
  Claim C7. For a persisted derived table, \<^verbatim>\<open>get_latest_sql_trigger_value\<close> raises its
  exception (the query error of the specification, \<open>NoTriggerValue\<close> here) when the
  trigger query returns no row, and returns the first column of the first row when
  the query returns at least one row.
\<close>

theorem trigger_query_rows:
  assumes "derived_table vo = Some dt" and "sql_trigger_value dt = Some q"
    and "execute conn q w = (Inr result, w')"
  shows "(result = [] \<longrightarrow> get_latest_sql_trigger_value conn vo w = (Inl NoTriggerValue, w'))
       \<and> (\<forall>c cs rest. result = (c # cs) # rest \<longrightarrow>
            get_latest_sql_trigger_value conn vo w = (Inr c, w'))"
  using assms
  by (simp add: get_latest_sql_trigger_value_def rowcount_def first_row_first_column_def)

theorem trigger_query_rows_witness:
  "get_latest_sql_trigger_value scripted_connection (pdt_view ''v'' ''select 1'' ''select 2'')
     (scripted_world [Inr []] Map.empty)
     = (Inl NoTriggerValue,
        \<lparr>warehouse = [], trigger_values = Map.empty, events = [Execute ''select 2'']\<rparr>)
   \<and> get_latest_sql_trigger_value scripted_connection (pdt_view ''v'' ''select 1'' ''select 2'')
     (scripted_world [Inr [[VInt 7, VInt 8]]] Map.empty)
     = (Inr (VInt 7),
        \<lparr>warehouse = [], trigger_values = Map.empty, events = [Execute ''select 2'']\<rparr>)"
proof -
  let ?vo = "pdt_view ''v'' ''select 1'' ''select 2''"
  let ?dt = "\<lparr>sql = Some ''select 1'', sql_trigger_value = Some ''select 2'',
              distribution_style = None, indexes = None\<rparr>"
  let ?w' = "\<lparr>warehouse = [], trigger_values = Map.empty, events = [Execute ''select 2'']\<rparr>
              :: (error + row list) list world"
  have dt: "derived_table ?vo = Some ?dt" by (simp add: pdt_view_def)
  have q: "sql_trigger_value ?dt = Some ''select 2''" by simp
  have e1: "execute scripted_connection ''select 2'' (scripted_world [Inr []] Map.empty)
              = (Inr [], ?w')"
    by (simp add: execute_scripted)
  have e2: "execute scripted_connection ''select 2''
              (scripted_world [Inr [[VInt 7, VInt 8]]] Map.empty)
              = (Inr [[VInt 7, VInt 8]], ?w')"
    by (simp add: execute_scripted)
  from trigger_query_rows[OF dt q e1] trigger_query_rows[OF dt q e2]
  show ?thesis by simp
qed

text \<open>
  Claim C10. When the trigger query or the table-existence query returns more than
  one row, neither \<^verbatim>\<open>get_latest_sql_trigger_value\<close> nor \<^verbatim>\<open>has_table\<close> raises: each
  returns the first column of the first row, whatever the other rows are.
\<close>

theorem first_of_several_rows_used:
  assumes "result = (c # cs) # second # others"
  shows "(derived_table vo = Some dt \<longrightarrow> sql_trigger_value dt = Some q \<longrightarrow>
            execute conn q w = (Inr result, w') \<longrightarrow>
            get_latest_sql_trigger_value conn vo w = (Inr c, w'))
       \<and> (has_table_sql ctx table schema = Inr q' \<longrightarrow>
            execute conn q' w = (Inr result, w') \<longrightarrow>
            has_table conn ctx table schema w = (Inr c, w'))"
  using assms
  by (simp add: get_latest_sql_trigger_value_def has_table_def rowcount_def
      first_row_first_column_def)

theorem first_of_several_rows_used_witness:
  "fst (get_latest_sql_trigger_value scripted_connection
          (pdt_view ''v'' ''select 1'' ''select 2'')
          (scripted_world [Inr [[VInt 7, VInt 8], [VInt 9]]] Map.empty))
     = Inr (VInt 7)
   \<and> fst (has_table scripted_connection (postgresql_context []) ''_v'' ''looker_scratch''
          (scripted_world [Inr [[VInt 7, VInt 8], [VInt 9]]] Map.empty))
     = Inr (VInt 7)"
proof -
  let ?vo = "pdt_view ''v'' ''select 1'' ''select 2''"
  let ?dt = "\<lparr>sql = Some ''select 1'', sql_trigger_value = Some ''select 2'',
              distribution_style = None, indexes = None\<rparr>"
  let ?result = "[[VInt 7, VInt 8], [VInt 9]]"
  let ?w = "scripted_world [Inr ?result] Map.empty"
  obtain q' where q': "has_table_sql (postgresql_context []) ''_v'' ''looker_scratch'' = Inr q'"
    by (simp add: has_table_sql_def postgresql_context_def)
  have r: "?result = (VInt 7 # [VInt 8]) # [VInt 9] # []" by simp
  have dt: "derived_table ?vo = Some ?dt" by (simp add: pdt_view_def)
  have q: "sql_trigger_value ?dt = Some ''select 2''" by simp
  have e: "execute scripted_connection stmt ?w
             = (Inr ?result, \<lparr>warehouse = [], trigger_values = Map.empty, events = [Execute stmt]\<rparr>)"
    for stmt by (simp add: execute_scripted)
  from first_of_several_rows_used[OF r, of ?vo ?dt "''select 2''" scripted_connection ?w _
      "postgresql_context []" "''_v''" "''looker_scratch''" q'] dt q q' e
  show ?thesis by simp
qed

section \<open>Effects of the warehouse operations\<close>

lemma execute_effect:
  assumes "execute conn q w = (r, w')"
  shows "events w' = events w @ [Execute q]" and "trigger_values w' = trigger_values w"
  using assms by (auto simp: execute_def split: prod.splits)

lemma has_table_effect:
  assumes "has_table conn ctx table schema w = (r, w')"
  shows "\<exists>qs. events w' = events w @ map Execute qs" and "trigger_values w' = trigger_values w"
proof -
  show "\<exists>qs. events w' = events w @ map Execute qs"
  proof (cases "has_table_sql ctx table schema")
    case (Inl e)
    with assms have "w' = w" by (simp add: has_table_def)
    then have "events w' = events w @ map Execute []" by simp
    then show ?thesis by blast
  next
    case (Inr q)
    obtain r1 w1 where ex: "execute conn q w = (r1, w1)" by (cases "execute conn q w")
    with assms Inr have "w' = w1"
      by (cases r1) (auto simp: has_table_def split: if_splits)
    with execute_effect(1)[OF ex] have "events w' = events w @ map Execute [q]" by simp
    then show ?thesis by blast
  qed
  show "trigger_values w' = trigger_values w"
  proof (cases "has_table_sql ctx table schema")
    case (Inl e)
    with assms show ?thesis by (simp add: has_table_def)
  next
    case (Inr q)
    obtain r1 w1 where ex: "execute conn q w = (r1, w1)" by (cases "execute conn q w")
    with assms Inr have "w' = w1"
      by (cases r1) (auto simp: has_table_def split: if_splits)
    with execute_effect(2)[OF ex] show ?thesis by simp
  qed
qed

lemma get_latest_sql_trigger_value_effect:
  assumes "get_latest_sql_trigger_value conn vo w = (r, w')"
  shows "\<exists>qs. events w' = events w @ map Execute qs" and "trigger_values w' = trigger_values w"
proof -
  have "(\<exists>qs. events w' = events w @ map Execute qs) \<and> trigger_values w' = trigger_values w"
  proof (cases "derived_table vo")
    case None
    with assms have "w' = w" by (simp add: get_latest_sql_trigger_value_def)
    then have "events w' = events w @ map Execute []" by simp
    with \<open>w' = w\<close> show ?thesis by blast
  next
    case (Some dt)
    show ?thesis
    proof (cases "sql_trigger_value dt")
      case None
      with assms Some have "w' = w" by (simp add: get_latest_sql_trigger_value_def)
      then have "events w' = events w @ map Execute []" by simp
      with \<open>w' = w\<close> show ?thesis by blast
    next
      case (Some q)
      obtain r1 w1 where ex: "execute conn q w = (r1, w1)" by (cases "execute conn q w")
      with assms Some \<open>derived_table vo = Some dt\<close> have "w' = w1"
        by (cases r1) (auto simp: get_latest_sql_trigger_value_def split: if_splits)
      with execute_effect[OF ex] have "events w' = events w @ map Execute [q]"
        and "trigger_values w' = trigger_values w" by simp_all
      then show ?thesis by blast
    qed
  qed
  then show "\<exists>qs. events w' = events w @ map Execute qs"
    and "trigger_values w' = trigger_values w" by simp_all
qed

lemma regenerate_persisted_derived_table_ok:
  assumes "regenerate_persisted_derived_table conn ctx vo w = (Inr u, w')"
  shows "\<exists>stmt. regenerate_derived_table_sql ctx vo = Inr stmt
           \<and> events w' = events w @ [Execute stmt]"
    and "trigger_values w' = trigger_values w"
proof -
  from assms obtain stmt where s: "regenerate_derived_table_sql ctx vo = Inr stmt"
    by (cases "regenerate_derived_table_sql ctx vo")
       (auto simp: regenerate_persisted_derived_table_def)
  obtain r1 w1 where ex: "execute conn stmt w = (r1, w1)" by (cases "execute conn stmt w")
  with assms s have "w' = w1"
    by (cases r1) (auto simp: regenerate_persisted_derived_table_def)
  with execute_effect[OF ex] s
  show "\<exists>stmt. regenerate_derived_table_sql ctx vo = Inr stmt
           \<and> events w' = events w @ [Execute stmt]"
    and "trigger_values w' = trigger_values w" by simp_all
qed

lemma regenerate_persisted_derived_table_failed:
  assumes "regenerate_persisted_derived_table conn ctx vo w = (Inl e, w')"
  shows "\<exists>qs. events w' = events w @ map Execute qs"
    and "trigger_values w' = trigger_values w"
proof -
  have "(\<exists>qs. events w' = events w @ map Execute qs) \<and> trigger_values w' = trigger_values w"
  proof (cases "regenerate_derived_table_sql ctx vo")
    case (Inl e')
    with assms have "w' = w" by (simp add: regenerate_persisted_derived_table_def)
    then have "events w' = events w @ map Execute []" by simp
    with \<open>w' = w\<close> show ?thesis by blast
  next
    case (Inr stmt)
    obtain r1 w1 where ex: "execute conn stmt w = (r1, w1)" by (cases "execute conn stmt w")
    with assms Inr have "w' = w1"
      by (cases r1) (auto simp: regenerate_persisted_derived_table_def)
    with execute_effect[OF ex] have "events w' = events w @ map Execute [stmt]"
      and "trigger_values w' = trigger_values w" by simp_all
    then show ?thesis by blast
  qed
  then show "\<exists>qs. events w' = events w @ map Execute qs"
    and "trigger_values w' = trigger_values w" by simp_all
qed

lemma regenerate_and_update_ok:
  assumes "regenerate_and_update conn ctx vo latest w = (Inr u, w')"
  shows "\<exists>stmt x. latest = Some x \<and> regenerate_derived_table_sql ctx vo = Inr stmt
           \<and> events w' = events w @ [Execute stmt, WriteTriggerValue (view_name vo) x]
           \<and> trigger_values w' = (trigger_values w)(view_name vo \<mapsto> x)"
proof -
  obtain r1 w1 where rg: "regenerate_persisted_derived_table conn ctx vo w = (r1, w1)"
    by (cases "regenerate_persisted_derived_table conn ctx vo w")
  with assms obtain u1 where r1: "r1 = Inr u1"
    by (cases r1) (auto simp: regenerate_and_update_def)
  with assms rg obtain x where x: "latest = Some x" and w': "w' = set_trigger_value vo x w1"
    by (cases latest) (auto simp: regenerate_and_update_def)
  from regenerate_persisted_derived_table_ok[OF rg[unfolded r1]] obtain stmt where
    "regenerate_derived_table_sql ctx vo = Inr stmt" "events w1 = events w @ [Execute stmt]"
    "trigger_values w1 = trigger_values w" by blast
  with x w' show ?thesis by (simp add: set_trigger_value_def)
qed

lemma regenerate_and_update_failed:
  assumes "regenerate_and_update conn ctx vo latest w = (Inl e, w')"
  shows "\<exists>qs. events w' = events w @ map Execute qs"
    and "trigger_values w' = trigger_values w"
proof -
  obtain r1 w1 where rg: "regenerate_persisted_derived_table conn ctx vo w = (r1, w1)"
    by (cases "regenerate_persisted_derived_table conn ctx vo w")
  have "(\<exists>qs. events w' = events w @ map Execute qs) \<and> trigger_values w' = trigger_values w"
  proof (cases r1)
    case (Inl e1)
    with assms rg have "w' = w1" by (simp add: regenerate_and_update_def)
    with regenerate_persisted_derived_table_failed[OF rg[unfolded Inl]] show ?thesis by simp
  next
    case (Inr u1)
    with assms rg have "w' = w1"
      by (cases latest) (auto simp: regenerate_and_update_def)
    moreover from regenerate_persisted_derived_table_ok[OF rg[unfolded Inr]] obtain stmt where
      "events w1 = events w @ map Execute [stmt]" "trigger_values w1 = trigger_values w"
      by auto
    ultimately show ?thesis by blast
  qed
  then show "\<exists>qs. events w' = events w @ map Execute qs"
    and "trigger_values w' = trigger_values w" by simp_all
qed

lemma pdt_table_and_schema:
  assumes "is_persisted_derived_table vo"
  shows "sql_table_name vo = Inr (''_'' @ view_name vo)"
    and "sql_schema_name ctx vo = Inr ''looker_scratch''"
  using assms
  by (auto simp: is_persisted_derived_table_def sql_table_name_def sql_schema_name_def
      is_derived_table_def split: option.splits)

lemma trigger_view_pdt:
  assumes "is_persisted_derived_table vo"
  shows "trigger_view conn ctx vo w =
     (case has_table conn ctx (''_'' @ view_name vo) ''looker_scratch'' w of
        (Inl e, w1) \<Rightarrow> (Inl e, w1)
      | (Inr table_exists, w1) \<Rightarrow>
          (if truthy table_exists then
             (case get_latest_sql_trigger_value conn vo w1 of
                (Inl e, w2) \<Rightarrow> (Inl e, w2)
              | (Inr latest, w2) \<Rightarrow>
                  (if trigger_value w2 vo \<noteq> VNone \<and> py_eq (trigger_value w2 vo) latest
                   then (Inr (), w2)
                   else regenerate_and_update conn ctx vo (Some latest) w2))
           else regenerate_and_update conn ctx vo None w1))"
  using assms by (simp add: trigger_view_def pdt_table_and_schema)

text \<open>The three ways \<^verbatim>\<open>trigger_view\<close> can go for a persisted derived table.\<close>

lemma trigger_view_cases:
  assumes pdt: "is_persisted_derived_table vo"
    and tv: "trigger_view conn ctx vo w = (r, w')"
  obtains
    (failed) e qs where "r = Inl e" "events w' = events w @ map Execute qs"
      "trigger_values w' = trigger_values w"
  | (skipped) qs where "r = Inr ()" "events w' = events w @ map Execute qs"
      "trigger_values w' = trigger_values w"
  | (regenerated) qs stmt x where "r = Inr ()"
      "regenerate_derived_table_sql ctx vo = Inr stmt"
      "events w' = events w @ map Execute (qs @ [stmt]) @ [WriteTriggerValue (view_name vo) x]"
      "trigger_values w' = (trigger_values w)(view_name vo \<mapsto> x)"
proof -
  let ?table = "''_'' @ view_name vo"
  obtain r1 w1 where ht: "has_table conn ctx ?table ''looker_scratch'' w = (r1, w1)"
    by (cases "has_table conn ctx ?table ''looker_scratch'' w")
  from has_table_effect[OF ht] obtain qs1 where
    e1: "events w1 = events w @ map Execute qs1" and s1: "trigger_values w1 = trigger_values w"
    by blast
  note tv' = tv[unfolded trigger_view_pdt[OF pdt]]
  show thesis
  proof (cases r1)
    case (Inl e)
    with tv' ht have "r = Inl e" "w' = w1" by simp_all
    with e1 s1 show thesis by (intro failed[of e qs1]) simp_all
  next
    case (Inr table_exists)
    note ex = this
    show thesis
    proof (cases "truthy table_exists")
      case False
      with tv' ht ex have ru: "regenerate_and_update conn ctx vo None w1 = (r, w')" by simp
      show thesis
      proof (cases r)
        case (Inl e)
        from regenerate_and_update_failed[OF ru[unfolded Inl]] obtain qs where
          "events w' = events w1 @ map Execute qs" "trigger_values w' = trigger_values w1"
          by blast
        with e1 s1 Inl show thesis by (intro failed[of e "qs1 @ qs"]) simp_all
      next
        case (Inr u)
        from regenerate_and_update_ok[OF ru[unfolded Inr]] show thesis by simp
      qed
    next
      case True
      obtain r2 w2 where gl: "get_latest_sql_trigger_value conn vo w1 = (r2, w2)"
        by (cases "get_latest_sql_trigger_value conn vo w1")
      from get_latest_sql_trigger_value_effect[OF gl] obtain qs2 where
        e2: "events w2 = events w1 @ map Execute qs2"
        and s2: "trigger_values w2 = trigger_values w1" by blast
      show thesis
      proof (cases r2)
        case (Inl e)
        with tv' ht ex True gl have "r = Inl e" "w' = w2" by simp_all
        with e1 s1 e2 s2 show thesis by (intro failed[of e "qs1 @ qs2"]) simp_all
      next
        case (Inr latest)
        show thesis
        proof (cases "trigger_value w2 vo \<noteq> VNone \<and> py_eq (trigger_value w2 vo) latest")
          case True
          with tv' ht ex \<open>truthy table_exists\<close> gl Inr have "r = Inr ()" "w' = w2" by simp_all
          with e1 s1 e2 s2 show thesis by (intro skipped[of "qs1 @ qs2"]) simp_all
        next
          case False
          with tv' ht ex \<open>truthy table_exists\<close> gl Inr
          have ru: "regenerate_and_update conn ctx vo (Some latest) w2 = (r, w')" by auto
          show thesis
          proof (cases r)
            case (Inl e)
            from regenerate_and_update_failed[OF ru[unfolded Inl]] obtain qs where
              "events w' = events w2 @ map Execute qs" "trigger_values w' = trigger_values w2"
              by blast
            with e1 s1 e2 s2 Inl show thesis by (intro failed[of e "qs1 @ qs2 @ qs"]) simp_all
          next
            case (Inr u)
            from regenerate_and_update_ok[OF ru[unfolded Inr]] obtain stmt x where
              "regenerate_derived_table_sql ctx vo = Inr stmt"
              "events w' = events w2 @ [Execute stmt, WriteTriggerValue (view_name vo) x]"
              "trigger_values w' = (trigger_values w2)(view_name vo \<mapsto> x)" by blast
            with e1 s1 e2 s2 Inr show thesis
              by (intro regenerated[of stmt "qs1 @ qs2" x]) simp_all
          qed
        qed
      qed
    qed
  qed
qed

section \<open>Properties of the regeneration driver\<close>

lemmas view_model_defs =
  pdt_view_def postgresql_context_def view_name_def is_derived_table_def
  is_persisted_derived_table_def default_schema_def sql_schema_name_def sql_table_name_def

lemmas sql_text_defs =
  regenerate_derived_table_sql_def regenerate_derived_table_sql_text_def has_table_sql_def
  create_schema_sql_def all_parameters_def nl_def quote_def indent_def

lemmas warehouse_defs =
  scripted_connection_def scripted_world_def execute_def begin_transaction_def commit_def
  rollback_def trigger_value_def set_trigger_value_def rowcount_def
  first_row_first_column_def

lemmas driver_defs =
  get_latest_sql_trigger_value_def regenerate_persisted_derived_table_def has_table_def
  create_schema_def create_looker_scratch_schema_def regenerate_and_update_def
  trigger_view_def trigger_transaction_def trigger_all_body_def trigger_all_handler_def
  trigger_all_def

lemmas order_defs =
  view_topological_order_def adjacency_lists_def view_dependencies_def adjacent_def
  initial_dfs_state_def match_here_def match_candidates_def is_space_def split_def


text \<open>Loading the example views gives the example context.\<close>

lemma load_lookml_example:
  "load_lookml \<lparr>sql_dialect = ''postgresql'', views = [], sql_table_name_parameters = []\<rparr>
     [pdt_view ''a'' ''select 1'' ''select 2'', pdt_view ''b'' ''select 3'' ''select 4'']
   = Inr (postgresql_context
            [pdt_view ''a'' ''select 1'' ''select 2'', pdt_view ''b'' ''select 3'' ''select 4''])"
  by (simp add: register_view_def view_model_defs)

lemma example_order:
  "view_topological_order (postgresql_context [pdt_view ''v'' ''select 1'' ''select 2''])
     = Inr [''v'']"
  by (simp add: order_defs view_model_defs visit.simps)

lemma example_order_two:
  "view_topological_order
     (postgresql_context [pdt_view ''a'' ''select 1'' ''select 2'',
                          pdt_view ''b'' ''select 3'' ''select 4''])
     = Inr [''a'', ''b'']"
  by (simp add: order_defs view_model_defs visit.simps)

text \<open>
  Claim C8, as amended. For a persisted derived table whose physical table exists,
  whose stored trigger value is not \<^verbatim>\<open>None\<close> and equals the freshly queried value,
  \<^verbatim>\<open>trigger_view\<close> returns without regenerating: the only statements sent are the
  existence query and the trigger query, and the trigger value store is unchanged.
\<close>

theorem unchanged_trigger_value_no_action:
  assumes "is_persisted_derived_table vo"
    and "has_table conn ctx (''_'' @ view_name vo) ''looker_scratch'' w = (Inr table_exists, w1)"
    and "truthy table_exists"
    and "get_latest_sql_trigger_value conn vo w1 = (Inr latest, w2)"
    and "trigger_value w vo \<noteq> VNone"
    and "py_eq (trigger_value w vo) latest"
  shows "trigger_view conn ctx vo w = (Inr (), w2)
       \<and> trigger_values w2 = trigger_values w
       \<and> (\<exists>hq dt tq. has_table_sql ctx (''_'' @ view_name vo) ''looker_scratch'' = Inr hq
             \<and> derived_table vo = Some dt \<and> sql_trigger_value dt = Some tq
             \<and> events w2 = events w @ [Execute hq, Execute tq])"
proof -
  from assms(2) obtain hq where hq: "has_table_sql ctx (''_'' @ view_name vo) ''looker_scratch'' = Inr hq"
    by (cases "has_table_sql ctx (''_'' @ view_name vo) ''looker_scratch''")
       (auto simp: has_table_def)
  obtain r1 w1' where ex1: "execute conn hq w = (r1, w1')" by (cases "execute conn hq w")
  with assms(2) hq have "w1 = w1'"
    by (cases r1) (auto simp: has_table_def split: if_splits)
  with execute_effect[OF ex1] have e1: "events w1 = events w @ [Execute hq]"
    and s1: "trigger_values w1 = trigger_values w" by simp_all
  from assms(4) obtain dt where dt: "derived_table vo = Some dt"
    by (cases "derived_table vo") (auto simp: get_latest_sql_trigger_value_def)
  with assms(4) obtain tq where tq: "sql_trigger_value dt = Some tq"
    by (cases "sql_trigger_value dt") (auto simp: get_latest_sql_trigger_value_def)
  obtain r2 w2' where ex2: "execute conn tq w1 = (r2, w2')" by (cases "execute conn tq w1")
  with assms(4) dt tq have "w2 = w2'"
    by (cases r2) (auto simp: get_latest_sql_trigger_value_def split: if_splits)
  with execute_effect[OF ex2] have e2: "events w2 = events w1 @ [Execute tq]"
    and s2: "trigger_values w2 = trigger_values w1" by simp_all
  from s1 s2 have tv: "trigger_value w2 vo = trigger_value w vo"
    by (simp add: trigger_value_def)
  from assms tv have "trigger_view conn ctx vo w = (Inr (), w2)"
    by (simp add: trigger_view_pdt)
  with s1 s2 e1 e2 hq dt tq show ?thesis by simp
qed

theorem unchanged_trigger_value_no_action_witness:
  "fst (trigger_view scripted_connection
          (postgresql_context [pdt_view ''v'' ''select 1'' ''select 2''])
          (pdt_view ''v'' ''select 1'' ''select 2'')
          (scripted_world [Inr [[VBool True]], Inr [[VInt 3]]] [''v'' \<mapsto> VInt 3]))
     = Inr ()
   \<and> trigger_values (snd (trigger_view scripted_connection
          (postgresql_context [pdt_view ''v'' ''select 1'' ''select 2''])
          (pdt_view ''v'' ''select 1'' ''select 2'')
          (scripted_world [Inr [[VBool True]], Inr [[VInt 3]]] [''v'' \<mapsto> VInt 3])))
     = [''v'' \<mapsto> VInt 3]"
proof -
  let ?vo = "pdt_view ''v'' ''select 1'' ''select 2''"
  let ?ctx = "postgresql_context [?vo]"
  let ?w = "scripted_world [Inr [[VBool True]], Inr [[VInt 3]]] [''v'' \<mapsto> VInt 3]"
  let ?w1 = "snd (has_table scripted_connection ?ctx (''_'' @ view_name ?vo) ''looker_scratch'' ?w)"
  let ?w2 = "snd (get_latest_sql_trigger_value scripted_connection ?vo ?w1)"
  have pdt: "is_persisted_derived_table ?vo" by (simp add: view_model_defs)
  have ht: "has_table scripted_connection ?ctx (''_'' @ view_name ?vo) ''looker_scratch'' ?w
              = (Inr (VBool True), ?w1)"
    by (simp add: driver_defs warehouse_defs sql_text_defs view_model_defs)
  have tr: "truthy (VBool True)" by simp
  have gl: "get_latest_sql_trigger_value scripted_connection ?vo ?w1 = (Inr (VInt 3), ?w2)"
    by (simp add: driver_defs warehouse_defs sql_text_defs view_model_defs)
  have stored: "trigger_value ?w ?vo \<noteq> VNone"
    by (simp add: warehouse_defs view_model_defs)
  have same: "py_eq (trigger_value ?w ?vo) (VInt 3)"
    by (simp add: warehouse_defs view_model_defs)
  from unchanged_trigger_value_no_action[OF pdt ht tr gl stored same]
  show ?thesis by (simp add: scripted_world_def)
qed

theorem stored_none_regenerated:
  "trigger_value (scripted_world [Inr [[VBool True]], Inr [[VNone]], Inr []] [''v'' \<mapsto> VNone])
       (pdt_view ''v'' ''select 1'' ''select 2'') = VNone
   \<and> py_eq VNone VNone
   \<and> map Inr (executed_statements (events (snd (trigger_view scripted_connection
          (postgresql_context [pdt_view ''v'' ''select 1'' ''select 2''])
          (pdt_view ''v'' ''select 1'' ''select 2'')
          (scripted_world [Inr [[VBool True]], Inr [[VNone]], Inr []] [''v'' \<mapsto> VNone])))))
     = [has_table_sql (postgresql_context [pdt_view ''v'' ''select 1'' ''select 2''])
          ''_v'' ''looker_scratch'',
        Inr ''select 2'',
        regenerate_derived_table_sql
          (postgresql_context [pdt_view ''v'' ''select 1'' ''select 2''])
          (pdt_view ''v'' ''select 1'' ''select 2'')]"
  by (simp add: driver_defs warehouse_defs sql_text_defs view_model_defs str_replace.simps)

text \<open>
  Whatever the view and the warehouse, \<^verbatim>\<open>trigger_view\<close> cannot succeed when the table
  does not exist, and it stores nothing.
\<close>

lemma missing_table_never_succeeds:
  assumes "is_persisted_derived_table vo"
    and "has_table conn ctx (''_'' @ view_name vo) ''looker_scratch'' w = (Inr table_exists, w1)"
    and "\<not> truthy table_exists"
  shows "\<exists>e w'. trigger_view conn ctx vo w = (Inl e, w')
           \<and> trigger_values w' = trigger_values w"
proof -
  obtain r w' where ru: "regenerate_and_update conn ctx vo None w1 = (r, w')"
    by (cases "regenerate_and_update conn ctx vo None w1")
  with assms have tv: "trigger_view conn ctx vo w = (r, w')"
    by (simp add: trigger_view_pdt)
  show ?thesis
  proof (cases r)
    case (Inl e)
    from regenerate_and_update_failed(2)[OF ru[unfolded Inl]] has_table_effect(2)[OF assms(2)]
    have "trigger_values w' = trigger_values w" by simp
    with tv Inl show ?thesis by simp
  next
    case (Inr u)
    from regenerate_and_update_ok[OF ru[unfolded Inr]] show ?thesis by simp
  qed
qed

text \<open>
  Claim C2. A persisted derived table whose physical table does not exist: the
  regeneration statement is sent, then reading \<^verbatim>\<open>latest_trigger_value\<close>, which only
  the branch for an existing table assigns, raises \<^verbatim>\<open>UnboundLocalError\<close>. No trigger
  value is stored, and \<^verbatim>\<open>trigger_all\<close> rolls the transaction back.
\<close>

theorem missing_table_unbound_trigger_value:
  "fst (trigger_view scripted_connection
          (postgresql_context [pdt_view ''v'' ''select 1'' ''select 2''])
          (pdt_view ''v'' ''select 1'' ''select 2'')
          (scripted_world [Inr [[VBool False]], Inr []] Map.empty))
     = Inl (UnboundLocalError ''latest_trigger_value'')
   \<and> map Inr (executed_statements (events (snd (trigger_view scripted_connection
          (postgresql_context [pdt_view ''v'' ''select 1'' ''select 2''])
          (pdt_view ''v'' ''select 1'' ''select 2'')
          (scripted_world [Inr [[VBool False]], Inr []] Map.empty)))))
     = [has_table_sql (postgresql_context [pdt_view ''v'' ''select 1'' ''select 2''])
          ''_v'' ''looker_scratch'',
        regenerate_derived_table_sql
          (postgresql_context [pdt_view ''v'' ''select 1'' ''select 2''])
          (pdt_view ''v'' ''select 1'' ''select 2'')]
   \<and> trigger_values (snd (trigger_all scripted_connection
          (postgresql_context [pdt_view ''v'' ''select 1'' ''select 2''])
          (scripted_world [Inr [], Inr [[VBool False]], Inr []] Map.empty))) ''v'' = None
   \<and> non_statements (events (snd (trigger_all scripted_connection
          (postgresql_context [pdt_view ''v'' ''select 1'' ''select 2''])
          (scripted_world [Inr [], Inr [[VBool False]], Inr []] Map.empty))))
     = [Begin, Rollback 2]"
  unfolding trigger_all_def example_order
  by (simp add: driver_defs warehouse_defs sql_text_defs view_model_defs str_replace.simps)

text \<open>
  Whatever makes the creation of the scratch schema fail, what leaves \<^verbatim>\<open>trigger_all\<close>
  is the \<^verbatim>\<open>UnboundLocalError\<close> of its handler.
\<close>

lemma scratch_schema_failure:
  assumes "view_topological_order ctx = Inr names"
    and "create_looker_scratch_schema conn ctx w = (Inl e, w')"
  shows "trigger_all conn ctx w = (Inl (UnboundLocalError ''transaction''), w')"
  using assms by (simp add: trigger_all_def trigger_all_body_def trigger_all_handler_def)

text \<open>
  Claim C9. When the statement that creates the scratch schema fails, no transaction
  has begun: the handler of \<^verbatim>\<open>trigger_all\<close> reads the variable \<^verbatim>\<open>transaction\<close>, which
  is not bound, and \<^verbatim>\<open>UnboundLocalError\<close> leaves \<^verbatim>\<open>trigger_all\<close>.
\<close>

theorem handler_reads_unbound_transaction:
  "fst (trigger_all scripted_connection
          (postgresql_context [pdt_view ''v'' ''select 1'' ''select 2''])
          (scripted_world [Inl (DatabaseError ''connection lost'')] Map.empty))
     = Inl (UnboundLocalError ''transaction'')
   \<and> non_statements (events (snd (trigger_all scripted_connection
          (postgresql_context [pdt_view ''v'' ''select 1'' ''select 2''])
          (scripted_world [Inl (DatabaseError ''connection lost'')] Map.empty))))
     = []"
  unfolding trigger_all_def example_order
  by (simp add: driver_defs warehouse_defs sql_text_defs view_model_defs)

lemma begin_transaction_effect:
  assumes "begin_transaction conn w = (r, w')"
  shows "events w' = events w @ [Begin]" and "trigger_values w' = trigger_values w"
  using assms by (auto simp: begin_transaction_def split: prod.splits)

lemma commit_effect:
  assumes "commit conn t w = (r, w')"
  shows "events w' = events w @ [Commit t]" and "trigger_values w' = trigger_values w"
  using assms by (auto simp: commit_def split: prod.splits)

lemma rollback_effect:
  assumes "rollback conn t w = (r, w')"
  shows "events w' = events w @ [Rollback t]" and "trigger_values w' = trigger_values w"
  using assms by (auto simp: rollback_def split: prod.splits)

text \<open>
  Claim C4, as amended. In the round of the driver for one view, the trigger value
  is written only right after the regeneration statement of that view was executed
  without error, inside the transaction begun for the view, and the commit of that
  transaction comes after the write, not before it.
\<close>

theorem trigger_value_written_before_commit:
  assumes "is_persisted_derived_table vo"
    and "trigger_transaction conn ctx vo transaction w = (r, transaction', w')"
  shows "\<exists>evs. events w' = events w @ evs \<and>
           (\<forall>n x. WriteTriggerValue n x \<in> set evs \<longrightarrow>
              n = view_name vo \<and>
              (\<exists>qs stmt t. regenerate_derived_table_sql ctx vo = Inr stmt \<and>
                 evs = Begin # map Execute (qs @ [stmt]) @ [WriteTriggerValue n x, Commit t]))"
proof -
  obtain r0 w0 where bg: "begin_transaction conn w = (r0, w0)"
    by (cases "begin_transaction conn w")
  note e0 = begin_transaction_effect(1)[OF bg]
  show ?thesis
  proof (cases r0)
    case (Inl e)
    with assms(2) bg have "w' = w0" by (simp add: trigger_transaction_def)
    with e0 have "events w' = events w @ [Begin]" by simp
    then show ?thesis by auto
  next
    case (Inr t)
    obtain r1 w1 where tv: "trigger_view conn ctx vo w0 = (r1, w1)"
      by (cases "trigger_view conn ctx vo w0")
    obtain r2 w2 where cm: "commit conn t w1 = (r2, w2)" by (cases "commit conn t w1")
    note e2 = commit_effect(1)[OF cm]
    from assms(1) tv show ?thesis
    proof (cases rule: trigger_view_cases)
      case (failed e qs)
      with assms(2) bg Inr tv have "w' = w1" by (simp add: trigger_transaction_def)
      with e0 failed have "events w' = events w @ (Begin # map Execute qs)" by simp
      then show ?thesis by auto
    next
      case (skipped qs)
      with assms(2) bg Inr tv cm have "w' = w2"
        by (cases r2) (simp_all add: trigger_transaction_def)
      with e0 e2 skipped have "events w' = events w @ (Begin # map Execute qs @ [Commit t])"
        by simp
      then show ?thesis by auto
    next
      case (regenerated qs stmt x)
      with assms(2) bg Inr tv cm have "w' = w2"
        by (cases r2) (simp_all add: trigger_transaction_def)
      with e0 e2 regenerated have
        "events w' = events w @ (Begin # map Execute (qs @ [stmt])
                                   @ [WriteTriggerValue (view_name vo) x, Commit t])"
        by simp
      moreover have "\<forall>n y. WriteTriggerValue n y \<in>
          set (Begin # map Execute (qs @ [stmt]) @ [WriteTriggerValue (view_name vo) x, Commit t])
          \<longrightarrow> n = view_name vo \<and> y = x"
        by auto
      ultimately show ?thesis using regenerated(2) by blast
    qed
  qed
qed

theorem trigger_value_written_before_commit_witness:
  "\<exists>qs stmt t.
      regenerate_derived_table_sql
        (postgresql_context [pdt_view ''v'' ''select 1'' ''select 2''])
        (pdt_view ''v'' ''select 1'' ''select 2'') = Inr stmt
    \<and> events (snd (snd (trigger_transaction scripted_connection
          (postgresql_context [pdt_view ''v'' ''select 1'' ''select 2''])
          (pdt_view ''v'' ''select 1'' ''select 2'') None
          (scripted_world [Inr [[VBool True]], Inr [[VInt 3]], Inr []] Map.empty))))
      = Begin # map Execute (qs @ [stmt]) @ [WriteTriggerValue ''v'' (VInt 3), Commit t]"
proof -
  let ?vo = "pdt_view ''v'' ''select 1'' ''select 2''"
  let ?ctx = "postgresql_context [?vo]"
  let ?w = "scripted_world [Inr [[VBool True]], Inr [[VInt 3]], Inr []] Map.empty"
  let ?res = "trigger_transaction scripted_connection ?ctx ?vo None ?w"
  have pdt: "is_persisted_derived_table ?vo" by (simp add: view_model_defs)
  have eq: "?res = (fst ?res, fst (snd ?res), snd (snd ?res))" by simp
  have written: "WriteTriggerValue ''v'' (VInt 3) \<in> set (events (snd (snd ?res)))"
    by (simp add: driver_defs warehouse_defs sql_text_defs view_model_defs str_replace.simps)
  have start: "events ?w = []" by (simp add: scripted_world_def)
  from trigger_value_written_before_commit[OF pdt eq] written start
  show ?thesis by auto
qed

theorem trigger_value_written_ahead_of_commit:
  "non_statements (events (snd (trigger_all scripted_connection
      (postgresql_context [pdt_view ''v'' ''select 1'' ''select 2''])
      (scripted_world [Inr [], Inr [[VBool True]], Inr [[VInt 3]], Inr []] Map.empty))))
     = [Begin, WriteTriggerValue ''v'' (VInt 3), Commit 3]"
  unfolding trigger_all_def example_order
  by (simp add: driver_defs warehouse_defs sql_text_defs view_model_defs str_replace.simps)

lemma non_statements_append:
  "non_statements (xs @ ys) = non_statements xs @ non_statements ys"
  by (induction xs rule: non_statements.induct) simp_all

lemma trigger_loop_append:
  "trigger_loop conn ctx (xs @ ys) transaction w =
     (case trigger_loop conn ctx xs transaction w of
        (None, transaction', w') \<Rightarrow> trigger_loop conn ctx ys transaction' w'
      | (Some e, transaction', w') \<Rightarrow> (Some e, transaction', w'))"
proof (induction xs arbitrary: transaction w)
  case Nil
  show ?case by simp
next
  case (Cons name xs)
  show ?case
  proof (cases "map_of (views ctx) name")
    case None
    then show ?thesis by simp
  next
    case (Some vo)
    show ?thesis
    proof (cases "is_persisted_derived_table vo")
      case False
      with Some Cons.IH show ?thesis by simp
    next
      case True
      obtain r t' w' where tt: "trigger_transaction conn ctx vo transaction w = (r, t', w')"
        by (cases "trigger_transaction conn ctx vo transaction w")
      with Some True Cons.IH show ?thesis by (cases r) simp_all
    qed
  qed
qed

text \<open>
  Claim C5, as amended. When the round for a view fails after its transaction has
  begun (the existence check, the staleness check, the regeneration or the commit
  raises), no later view of the order is processed: \<^verbatim>\<open>trigger_all\<close> rolls that
  transaction back and stops. The exception is not raised again: \<^verbatim>\<open>trigger_all\<close>
  returns normally when the rollback succeeds, and otherwise raises what the
  rollback raised.
\<close>

theorem failed_view_stops_run:
  assumes "view_topological_order ctx = Inr (before @ name # rest)"
    and "create_looker_scratch_schema conn ctx w = (Inr u, w0)"
    and "trigger_loop conn ctx before None w0 = (None, transaction, w1)"
    and "map_of (views ctx) name = Some vo"
    and "is_persisted_derived_table vo"
    and "trigger_transaction conn ctx vo transaction w1 = (Some e, Some t, w2)"
    and "rollback conn t w2 = (r, w3)"
  shows "trigger_all conn ctx w = ((case r of None \<Rightarrow> Inr () | Some e' \<Rightarrow> Inl e'), w3)
       \<and> events w3 = events w2 @ [Rollback t]"
proof -
  from assms(3-6) have "trigger_loop conn ctx (before @ name # rest) None w0 = (Some e, Some t, w2)"
    by (simp add: trigger_loop_append)
  with assms(2) have "trigger_all_body conn ctx (before @ name # rest) w = (Some e, Some t, w2)"
    by (simp add: trigger_all_body_def)
  with assms(1,7) have "trigger_all conn ctx w = ((case r of None \<Rightarrow> Inr () | Some e' \<Rightarrow> Inl e'), w3)"
    by (cases r) (simp_all add: trigger_all_def trigger_all_handler_def)
  with rollback_effect(1)[OF assms(7)] show ?thesis by simp
qed

theorem failed_view_stops_run_witness:
  "fst (trigger_all scripted_connection
          (postgresql_context [pdt_view ''a'' ''select 1'' ''select 2'',
                               pdt_view ''b'' ''select 3'' ''select 4''])
          (scripted_world [Inr [], Inl (DatabaseError ''boom''), Inr [[VBool True]]] Map.empty))
     = Inr ()
   \<and> non_statements (events (snd (trigger_all scripted_connection
          (postgresql_context [pdt_view ''a'' ''select 1'' ''select 2'',
                               pdt_view ''b'' ''select 3'' ''select 4''])
          (scripted_world [Inr [], Inl (DatabaseError ''boom''), Inr [[VBool True]]] Map.empty))))
     = [Begin, Rollback 2]"
proof -
  let ?a = "pdt_view ''a'' ''select 1'' ''select 2''"
  let ?ctx = "postgresql_context [?a, pdt_view ''b'' ''select 3'' ''select 4'']"
  let ?w = "scripted_world [Inr [], Inl (DatabaseError ''boom''), Inr [[VBool True]]] Map.empty"
  let ?ws = "snd (create_looker_scratch_schema scripted_connection ?ctx ?w)"
  let ?wf = "snd (snd (trigger_transaction scripted_connection ?ctx ?a None ?ws))"
  let ?wr = "snd (rollback scripted_connection 2 ?wf)"
  have order: "view_topological_order ?ctx = Inr ([] @ ''a'' # [''b''])"
    by (simp add: example_order_two)
  have "fst (create_looker_scratch_schema scripted_connection ?ctx ?w) = Inr ()"
    by (simp add: driver_defs warehouse_defs sql_text_defs view_model_defs)
  then have schema: "create_looker_scratch_schema scripted_connection ?ctx ?w = (Inr (), ?ws)"
    by (simp add: prod_eq_iff)
  have loop_before: "trigger_loop scripted_connection ?ctx [] None ?ws = (None, None, ?ws)"
    by simp
  have a: "map_of (views ?ctx) ''a'' = Some ?a" by (simp add: view_model_defs)
  have pdt: "is_persisted_derived_table ?a" by (simp add: view_model_defs)
  have "fst (trigger_transaction scripted_connection ?ctx ?a None ?ws)
          = Some (DatabaseError ''boom'')
        \<and> fst (snd (trigger_transaction scripted_connection ?ctx ?a None ?ws)) = Some 2"
    by (simp add: driver_defs warehouse_defs sql_text_defs view_model_defs)
  then have failed: "trigger_transaction scripted_connection ?ctx ?a None ?ws
                  = (Some (DatabaseError ''boom''), Some 2, ?wf)"
    by (simp add: prod_eq_iff)
  have "fst (rollback scripted_connection 2 ?wf) = None"
    by (simp add: rollback_def scripted_connection_def split: prod.splits)
  then have rb: "rollback scripted_connection 2 ?wf = (None, ?wr)"
    by (simp add: prod_eq_iff)
  have evs: "non_statements (events ?wf) = [Begin]"
    by (simp add: driver_defs warehouse_defs sql_text_defs view_model_defs)
  from failed_view_stops_run[OF order schema loop_before a pdt failed rb]
  have run: "trigger_all scripted_connection ?ctx ?w = (Inr (), ?wr)"
    and rolled: "events ?wr = events ?wf @ [Rollback 2]" by simp_all
  from run have "fst (trigger_all scripted_connection ?ctx ?w) = Inr ()"
    and "snd (trigger_all scripted_connection ?ctx ?w) = ?wr" by simp_all
  with rolled evs show ?thesis by (simp add: non_statements_append)
qed

theorem failure_not_raised_again:
  "fst (trigger_view scripted_connection
          (postgresql_context [pdt_view ''v'' ''select 1'' ''select 2''])
          (pdt_view ''v'' ''select 1'' ''select 2'')
          (scripted_world [Inl (DatabaseError ''boom'')] Map.empty))
     = Inl (DatabaseError ''boom'')
   \<and> fst (trigger_all scripted_connection
          (postgresql_context [pdt_view ''v'' ''select 1'' ''select 2''])
          (scripted_world [Inr [], Inl (DatabaseError ''boom'')] Map.empty))
     = Inr ()"
proof -
  have "fst (trigger_all scripted_connection
          (postgresql_context [pdt_view ''v'' ''select 1'' ''select 2''])
          (scripted_world [Inr [], Inl (DatabaseError ''boom'')] Map.empty))
     = Inr ()"
    unfolding trigger_all_def example_order
    by (simp add: driver_defs warehouse_defs sql_text_defs view_model_defs)
  then show ?thesis
    by (simp add: driver_defs warehouse_defs sql_text_defs view_model_defs)
qed

section \<open>Properties of reference extraction\<close>

text \<open>
  Claim C6. Two references on one line of a template: the greedy group of the pattern
  runs from the first opening brace to the last closing brace of the line, so there
  is one match, its text has two dots, and unpacking \<^verbatim>\<open>param.split('.')\<close> into two
  names raises \<^verbatim>\<open>ValueError\<close>. The same two references on two lines give the two
  views.
\<close>

theorem two_references_on_one_line:
  "finditer ''select ${a.x}, ${b.y}'' = [''a.x}, ${b.y'']
   \<and> view_dependencies
        (postgresql_context [pdt_view ''a'' ''select 1'' ''select 2'',
                             pdt_view ''b'' ''select 3'' ''select 4''])
        (pdt_view ''c'' ''select ${a.x}, ${b.y}'' ''select 5'')
     = Inl ValueError
   \<and> view_dependencies
        (postgresql_context [pdt_view ''a'' ''select 1'' ''select 2'',
                             pdt_view ''b'' ''select 3'' ''select 4''])
        (pdt_view ''c'' (''select ${a.x},'' @ [CHR 0x0A] @ ''${b.y}'') ''select 5'')
     = Inr [''a'', ''b'']"
  by (simp add: order_defs view_model_defs)

section \<open>Properties of the topological order\<close>

lemma precedes_trans:
  "precedes u v xs \<Longrightarrow> precedes w u xs \<Longrightarrow> precedes w v xs"
  unfolding precedes_def
  by (induction xs) (auto split: if_splits)

lemma precedes_irrefl: "\<not> precedes v v xs"
  unfolding precedes_def by (auto dest: set_takeWhileD)

lemma precedes_in_set: "precedes w v xs \<Longrightarrow> w \<in> set xs"
  unfolding precedes_def by (auto dest: set_takeWhileD)

lemma precedes_snoc_old:
  "precedes w u xs \<Longrightarrow> precedes w u (xs @ [v])"
  unfolding precedes_def by (auto simp: takeWhile_append1)

lemma precedes_snoc_new:
  assumes "w \<in> set xs" and "v \<notin> set xs"
  shows "precedes w v (xs @ [v])"
proof -
  have "takeWhile (\<lambda>x. x \<noteq> v) (xs @ [v]) = xs @ takeWhile (\<lambda>x. x \<noteq> v) [v]"
    using assms(2) by (intro takeWhile_append2) auto
  with assms(1) show ?thesis by (simp add: precedes_def)
qed

lemma dfs_invariant_push:
  assumes inv: "dfs_invariant adj st"
    and tmp: "v \<in> temporary_visit_set st"
    and adj: "set (adjacent adj v) \<subseteq> permanent_visit_set st"
  shows "dfs_invariant adj
           (st\<lparr>temporary_visit_set := temporary_visit_set st - {v},
               permanent_visit_set := insert v (permanent_visit_set st),
               ordered_view_names := v # ordered_view_names st\<rparr>)"
proof -
  from inv have d: "distinct (ordered_view_names st)"
    and s: "set (ordered_view_names st) = permanent_visit_set st"
    and i: "permanent_visit_set st \<inter> temporary_visit_set st = {}"
    and o: "\<And>u w. u \<in> permanent_visit_set st \<Longrightarrow> w \<in> set (adjacent adj u) \<Longrightarrow>
              precedes w u (rev (ordered_view_names st))"
    by (auto simp: dfs_invariant_def)
  from i tmp have vnew: "v \<notin> permanent_visit_set st" by blast
  with s have vnot: "v \<notin> set (ordered_view_names st)" by simp
  have ord: "precedes w u (rev (ordered_view_names st) @ [v])"
    if "u \<in> insert v (permanent_visit_set st)" "w \<in> set (adjacent adj u)" for u w
  proof (cases "u = v")
    case True
    from that(2) adj s True have "w \<in> set (rev (ordered_view_names st))" by auto
    with vnot True show ?thesis by (simp add: precedes_snoc_new)
  next
    case False
    with that have "precedes w u (rev (ordered_view_names st))" by (auto intro: o)
    then show ?thesis by (rule precedes_snoc_old)
  qed
  from d s i vnot ord show ?thesis
    unfolding dfs_invariant_def by (simp, blast)
qed

lemma dfs_invariant_mark:
  assumes "dfs_invariant adj st" and "v \<notin> permanent_visit_set st"
  shows "dfs_invariant adj (st\<lparr>temporary_visit_set := insert v (temporary_visit_set st)\<rparr>)"
  using assms unfolding dfs_invariant_def by auto

lemma visit_visited:
  "dfs_invariant adj st \<Longrightarrow> visit adj v st = Inr st' \<Longrightarrow> visited adj st {v} st'"
  "dfs_invariant adj st \<Longrightarrow> visit_adjacent adj ws st = Inr st'' \<Longrightarrow>
     visited adj st (set ws) st''"
proof (induction adj v st and adj ws st arbitrary: st' and st''
    rule: visit_visit_adjacent.induct)
  case (1 adj v st)
  show ?case
  proof (cases "v \<in> permanent_visit_set st")
    case True
    with 1(3) have "st' = st" by (simp add: visit.simps)
    with 1(2) True show ?thesis by (simp add: visited_def)
  next
    case False
    note notperm = this
    show ?thesis
    proof (cases "v \<in> temporary_visit_set st")
      case True
      with notperm 1(3) show ?thesis by (simp add: visit.simps)
    next
      case False
      let ?st1 = "st\<lparr>temporary_visit_set := insert v (temporary_visit_set st)\<rparr>"
      from notperm False 1(3) obtain st2 where
        va: "visit_adjacent adj (adjacent adj v) ?st1 = Inr st2" and
        st': "st' = st2\<lparr>temporary_visit_set := temporary_visit_set st2 - {v},
                      permanent_visit_set := insert v (permanent_visit_set st2),
                      ordered_view_names := v # ordered_view_names st2\<rparr>"
        by (simp add: visit.simps split: sum.splits)
      from 1(1)[OF notperm False dfs_invariant_mark[OF 1(2) notperm] va]
      have inv2: "dfs_invariant adj st2"
        and tmp2: "temporary_visit_set st2 = insert v (temporary_visit_set st)"
        and perm2: "permanent_visit_set st \<subseteq> permanent_visit_set st2"
        and adj2: "set (adjacent adj v) \<subseteq> permanent_visit_set st2"
        by (simp_all add: visited_def)
      from tmp2 have "v \<in> temporary_visit_set st2" by simp
      from dfs_invariant_push[OF inv2 this adj2] st' have "dfs_invariant adj st'" by simp
      moreover from st' tmp2 False have "temporary_visit_set st' = temporary_visit_set st"
        by auto
      moreover from st' perm2 have "permanent_visit_set st \<subseteq> permanent_visit_set st'"
        by auto
      moreover from st' have "v \<in> permanent_visit_set st'" by simp
      ultimately show ?thesis by (simp add: visited_def)
    qed
  qed
next
  case (2 adj st)
  then show ?case by (simp add: visited_def)
next
  case (3 adj w ws st)
  from 3(4) obtain st1 where v: "visit adj w st = Inr st1"
    and va: "visit_adjacent adj ws st1 = Inr st''"
    by (simp split: sum.splits)
  from 3(1)[OF 3(3) v] have a: "visited adj st {w} st1" .
  then have "dfs_invariant adj st1" by (simp add: visited_def)
  from 3(2)[OF v this va] have b: "visited adj st1 (set ws) st''" .
  from a b show ?case by (auto simp: visited_def)
qed

lemma visit_error:
  "dfs_invariant adj st \<Longrightarrow>
     \<forall>t \<in> temporary_visit_set st. (t, v) \<in> (dependency_edges adj)\<^sup>+ \<Longrightarrow>
     visit adj v st = Inl e \<Longrightarrow> on_cycle adj e"
  "dfs_invariant adj st \<Longrightarrow>
     \<forall>t \<in> temporary_visit_set st. \<forall>w \<in> set ws. (t, w) \<in> (dependency_edges adj)\<^sup>+ \<Longrightarrow>
     visit_adjacent adj ws st = Inl e' \<Longrightarrow> on_cycle adj e'"
proof (induction adj v st and adj ws st arbitrary: e and e'
    rule: visit_visit_adjacent.induct)
  case (1 adj v st)
  show ?case
  proof (cases "v \<in> permanent_visit_set st")
    case True
    with 1(4) show ?thesis by (simp add: visit.simps)
  next
    case False
    note notperm = this
    show ?thesis
    proof (cases "v \<in> temporary_visit_set st")
      case True
      with notperm 1(4) have "e = CircularDependency v" by (simp add: visit.simps)
      moreover from True 1(3) have "(v, v) \<in> (dependency_edges adj)\<^sup>+" by blast
      ultimately show ?thesis by (auto simp: on_cycle_def)
    next
      case False
      let ?st1 = "st\<lparr>temporary_visit_set := insert v (temporary_visit_set st)\<rparr>"
      from notperm False 1(4) have va: "visit_adjacent adj (adjacent adj v) ?st1 = Inl e"
        by (simp add: visit.simps split: sum.splits)
      have "(t, w) \<in> (dependency_edges adj)\<^sup>+"
        if "t \<in> temporary_visit_set ?st1" "w \<in> set (adjacent adj v)" for t w
      proof -
        from that(2) have edge: "(v, w) \<in> dependency_edges adj"
          by (simp add: dependency_edges_def)
        show ?thesis
        proof (cases "t = v")
          case True
          with edge show ?thesis by blast
        next
          case False
          with that(1) 1(3) have "(t, v) \<in> (dependency_edges adj)\<^sup>+" by simp
          with edge show ?thesis by (blast intro: trancl_into_trancl)
        qed
      qed
      then have "\<forall>t \<in> temporary_visit_set ?st1. \<forall>w \<in> set (adjacent adj v).
                   (t, w) \<in> (dependency_edges adj)\<^sup>+" by blast
      from 1(1)[OF notperm False dfs_invariant_mark[OF 1(2) notperm] this va]
      show ?thesis .
    qed
  qed
next
  case (2 adj st)
  then show ?case by simp
next
  case (3 adj w ws st)
  show ?case
  proof (cases "visit adj w st")
    case (Inl e1)
    with 3(5) have "e' = e1" by simp
    moreover from 3(4) have "\<forall>t \<in> temporary_visit_set st. (t, w) \<in> (dependency_edges adj)\<^sup>+"
      by simp
    from 3(1)[OF 3(3) this Inl] have "on_cycle adj e1" .
    ultimately show ?thesis by simp
  next
    case (Inr st1)
    with 3(5) have va: "visit_adjacent adj ws st1 = Inl e'" by simp
    from visit_visited(1)[OF 3(3) Inr] have inv1: "dfs_invariant adj st1"
      and tmp1: "temporary_visit_set st1 = temporary_visit_set st"
      by (simp_all add: visited_def)
    from 3(4) tmp1 have "\<forall>t \<in> temporary_visit_set st1. \<forall>u \<in> set ws.
        (t, u) \<in> (dependency_edges adj)\<^sup>+" by simp
    from 3(2)[OF Inr inv1 this va] show ?thesis .
  qed
qed

lemma visit_unvisited_visited:
  "dfs_invariant adj st \<Longrightarrow> visit_unvisited adj vos st = Inr st' \<Longrightarrow>
     visited adj st (view_name ` set vos) st'"
proof (induction vos arbitrary: st)
  case Nil
  then show ?case by (simp add: visited_def)
next
  case (Cons vo vos)
  show ?case
  proof (cases "view_name vo \<in> permanent_visit_set st")
    case True
    with Cons.prems have "visit_unvisited adj vos st = Inr st'" by simp
    from Cons.IH[OF Cons.prems(1) this] True show ?thesis by (auto simp: visited_def)
  next
    case False
    with Cons.prems(2) obtain st1 where v: "visit adj (view_name vo) st = Inr st1"
      and rest: "visit_unvisited adj vos st1 = Inr st'"
      by (simp split: sum.splits)
    from visit_visited(1)[OF Cons.prems(1) v] have a: "visited adj st {view_name vo} st1" .
    then have "dfs_invariant adj st1" by (simp add: visited_def)
    from Cons.IH[OF this rest] a show ?thesis by (auto simp: visited_def)
  qed
qed

lemma visit_unvisited_error:
  "dfs_invariant adj st \<Longrightarrow> temporary_visit_set st = {} \<Longrightarrow>
     visit_unvisited adj vos st = Inl e \<Longrightarrow> on_cycle adj e"
proof (induction vos arbitrary: st)
  case Nil
  then show ?case by simp
next
  case (Cons vo vos)
  show ?case
  proof (cases "view_name vo \<in> permanent_visit_set st")
    case True
    with Cons.prems have "visit_unvisited adj vos st = Inl e" by simp
    from Cons.IH[OF Cons.prems(1,2) this] show ?thesis .
  next
    case False
    show ?thesis
    proof (cases "visit adj (view_name vo) st")
      case (Inl e1)
      with False Cons.prems(3) have "e = e1" by simp
      moreover from Cons.prems(2)
      have "\<forall>t \<in> temporary_visit_set st. (t, view_name vo) \<in> (dependency_edges adj)\<^sup>+"
        by simp
      from visit_error(1)[OF Cons.prems(1) this Inl] have "on_cycle adj e1" .
      ultimately show ?thesis by simp
    next
      case (Inr st1)
      with False Cons.prems(3) have rest: "visit_unvisited adj vos st1 = Inl e" by simp
      from visit_visited(1)[OF Cons.prems(1) Inr] Cons.prems(2)
      have "dfs_invariant adj st1" "temporary_visit_set st1 = {}"
        by (simp_all add: visited_def)
      from Cons.IH[OF this rest] show ?thesis .
    qed
  qed
qed

lemma dfs_invariant_initial: "dfs_invariant adj initial_dfs_state"
  by (simp add: dfs_invariant_def initial_dfs_state_def)

lemma dependency_path_precedes:
  assumes inv: "dfs_invariant adj st"
    and path: "(v, w) \<in> (dependency_edges adj)\<^sup>+"
    and v: "v \<in> permanent_visit_set st"
  shows "precedes w v (rev (ordered_view_names st))"
  using path
proof (induction rule: trancl_induct)
  case (base w)
  with inv v show ?case by (auto simp: dfs_invariant_def dependency_edges_def)
next
  case (step u w)
  from step.IH have "u \<in> set (rev (ordered_view_names st))" by (rule precedes_in_set)
  with inv have "u \<in> permanent_visit_set st" by (auto simp: dfs_invariant_def)
  with inv step.hyps(2) have "precedes w u (rev (ordered_view_names st))"
    by (auto simp: dfs_invariant_def dependency_edges_def)
  with step.IH show ?case by (rule precedes_trans)
qed

lemma map_of_adjacency_append:
  "map_of (adjacency_append adj k w) v =
     (if v = k then Some ((case map_of adj k of None \<Rightarrow> [] | Some ws \<Rightarrow> ws) @ [w])
      else map_of adj v)"
  by (induction adj) auto

lemma adjacent_adjacency_append:
  "adjacent (adjacency_append adj k w) v =
     (if v = k then adjacent adj k @ [w] else adjacent adj v)"
  by (simp add: adjacent_def map_of_adjacency_append)

lemma adjacent_append_dependencies:
  "set (adjacent (append_dependencies adj k ds) v) =
     set (adjacent adj v) \<union> (if v = k then set ds else {})"
  by (induction ds arbitrary: adj) (auto simp: adjacent_adjacency_append)

lemma dependency_edges_adjacency_loop:
  "adjacency_loop ctx vos adj0 = Inr adj \<Longrightarrow>
     dependency_edges adj =
       dependency_edges adj0 \<union>
       {(v, d). \<exists>vo deps. vo \<in> set vos \<and> view_name vo = v
                  \<and> view_dependencies ctx vo = Inr deps \<and> d \<in> set deps}"
proof (induction vos arbitrary: adj0)
  case Nil
  then show ?case by simp
next
  case (Cons vo vos)
  from Cons.prems obtain deps where deps: "view_dependencies ctx vo = Inr deps"
    and rest: "adjacency_loop ctx vos (append_dependencies adj0 (view_name vo) deps) = Inr adj"
    by (simp split: sum.splits)
  have "dependency_edges (append_dependencies adj0 (view_name vo) deps) =
          dependency_edges adj0 \<union> {(v, d). v = view_name vo \<and> d \<in> set deps}"
    by (auto simp: dependency_edges_def adjacent_append_dependencies split: if_splits)
  with Cons.IH[OF rest] deps show ?case by auto
qed

lemma dependency_edges_adjacency_lists:
  assumes "adjacency_lists ctx = Inr adj"
  shows "dependency_edges adj = depends_on ctx"
proof -
  have "dependency_edges [] = {}" by (simp add: dependency_edges_def adjacent_def)
  with dependency_edges_adjacency_loop[OF assms[unfolded adjacency_lists_def]]
  show ?thesis by (simp add: depends_on_def)
qed

lemma depends_on_source:
  assumes "(v, w) \<in> (depends_on ctx)\<^sup>+"
  shows "v \<in> view_name ` set (map snd (views ctx))"
proof -
  from assms obtain x where "(v, x) \<in> depends_on ctx" by (auto dest: tranclD)
  then show ?thesis by (auto simp: depends_on_def)
qed

text \<open>
  The views of a set are visited in an order that Python does not fix. Whatever
  that order, that is for all adjacency lists with the edges of the dependency
  graph, the search returns a linear order of an acyclic graph and stops at a cycle
  of a cyclic one.
\<close>

lemma acyclic_graph_ordered:
  assumes edges: "dependency_edges adj = depends_on ctx"
    and acyc: "acyclic (depends_on ctx)"
  shows "\<exists>st. visit_unvisited adj (map snd (views ctx)) initial_dfs_state = Inr st
           \<and> distinct (rev (ordered_view_names st))
           \<and> view_name ` set (map snd (views ctx)) \<subseteq> set (rev (ordered_view_names st))
           \<and> (\<forall>v w. (v, w) \<in> (depends_on ctx)\<^sup>+ \<longrightarrow>
                 precedes w v (rev (ordered_view_names st)))"
proof -
  let ?vos = "map snd (views ctx)"
  show ?thesis
  proof (cases "visit_unvisited adj ?vos initial_dfs_state")
    case (Inl e)
    have "temporary_visit_set initial_dfs_state = {}" by (simp add: initial_dfs_state_def)
    from visit_unvisited_error[OF dfs_invariant_initial this Inl] edges
    obtain u where "(u, u) \<in> (depends_on ctx)\<^sup>+" by (auto simp: on_cycle_def)
    with acyc show ?thesis by (simp add: acyclic_def)
  next
    case (Inr st)
    from visit_unvisited_visited[OF dfs_invariant_initial Inr]
    have inv: "dfs_invariant adj st"
      and all: "view_name ` set ?vos \<subseteq> permanent_visit_set st"
      by (simp_all add: visited_def)
    let ?order = "rev (ordered_view_names st)"
    from inv have "distinct ?order" by (simp add: dfs_invariant_def)
    moreover from inv all have "view_name ` set ?vos \<subseteq> set ?order"
      by (simp add: dfs_invariant_def)
    moreover have "precedes w v ?order" if "(v, w) \<in> (depends_on ctx)\<^sup>+" for v w
    proof -
      from depends_on_source[OF that] all have "v \<in> permanent_visit_set st" by blast
      with inv that edges show ?thesis by (simp add: dependency_path_precedes)
    qed
    ultimately show ?thesis using Inr by blast
  qed
qed

lemma cyclic_graph_refused:
  assumes edges: "dependency_edges adj = depends_on ctx"
    and cyc: "\<not> acyclic (depends_on ctx)"
  shows "\<exists>v. (v, v) \<in> (depends_on ctx)\<^sup>+
           \<and> visit_unvisited adj (map snd (views ctx)) initial_dfs_state
               = Inl (CircularDependency v)"
proof -
  let ?vos = "map snd (views ctx)"
  from cyc obtain u where u: "(u, u) \<in> (depends_on ctx)\<^sup>+"
    by (auto simp: acyclic_def)
  show ?thesis
  proof (cases "visit_unvisited adj ?vos initial_dfs_state")
    case (Inr st)
    from visit_unvisited_visited[OF dfs_invariant_initial Inr]
    have inv: "dfs_invariant adj st"
      and all: "view_name ` set ?vos \<subseteq> permanent_visit_set st"
      by (simp_all add: visited_def)
    from depends_on_source[OF u] all have "u \<in> permanent_visit_set st" by blast
    with inv u edges have "precedes u u (rev (ordered_view_names st))"
      by (simp add: dependency_path_precedes)
    then show ?thesis by (simp add: precedes_irrefl)
  next
    case (Inl e)
    have "temporary_visit_set initial_dfs_state = {}" by (simp add: initial_dfs_state_def)
    from visit_unvisited_error[OF dfs_invariant_initial this Inl] edges
    show ?thesis using Inl by (auto simp: on_cycle_def)
  qed
qed

text \<open>
  Claim C1. When the dependency graph of the loaded views is acyclic,
  \<^verbatim>\<open>view_topological_order\<close> returns an order that holds every view once and in which
  every view comes after all the views it depends on, directly or through other
  views.
\<close>

theorem topological_order_respects_dependencies:
  assumes "adjacency_lists ctx = Inr adj" and "acyclic (depends_on ctx)"
  shows "\<exists>order. view_topological_order ctx = Inr order
           \<and> distinct order
           \<and> view_name ` set (map snd (views ctx)) \<subseteq> set order
           \<and> (\<forall>v w. (v, w) \<in> (depends_on ctx)\<^sup>+ \<longrightarrow> precedes w v order)"
proof -
  from acyclic_graph_ordered[OF dependency_edges_adjacency_lists[OF assms(1)] assms(2)]
  obtain st where "visit_unvisited adj (map snd (views ctx)) initial_dfs_state = Inr st"
    and "distinct (rev (ordered_view_names st))"
    and "view_name ` set (map snd (views ctx)) \<subseteq> set (rev (ordered_view_names st))"
    and "\<forall>v w. (v, w) \<in> (depends_on ctx)\<^sup>+ \<longrightarrow> precedes w v (rev (ordered_view_names st))"
    by blast
  moreover from this(1) assms(1)
  have "view_topological_order ctx = Inr (rev (ordered_view_names st))"
    by (simp add: view_topological_order_def)
  ultimately show ?thesis by blast
qed

theorem topological_order_respects_dependencies_witness:
  "view_topological_order
     (postgresql_context [pdt_view ''b'' ''select ${a.x}'' ''select 2'',
                          pdt_view ''a'' ''select 1'' ''select 2''])
     = Inr [''a'', ''b'']
   \<and> precedes ''a'' ''b'' [''a'', ''b'']"
proof -
  let ?ctx = "postgresql_context [pdt_view ''b'' ''select ${a.x}'' ''select 2'',
                                  pdt_view ''a'' ''select 1'' ''select 2'']"
  have adj: "adjacency_lists ?ctx = Inr [(''b'', [''a''])]"
    by (simp add: order_defs view_model_defs)
  have "dependency_edges [(''b'', [''a''])] = {(''b'', ''a'')}"
    by (auto simp: dependency_edges_def adjacent_def split: if_splits)
  with dependency_edges_adjacency_lists[OF adj]
  have edges: "depends_on ?ctx = {(''b'', ''a'')}" by simp
  have "acyclic ({} :: (string \<times> string) set)" by (simp add: acyclic_def)
  then have "acyclic {(''b'', ''a'')}" by (simp add: acyclic_insert)
  with edges have acyc: "acyclic (depends_on ?ctx)" by simp
  have order: "view_topological_order ?ctx = Inr [''a'', ''b'']"
    by (simp add: order_defs view_model_defs visit.simps)
  from edges have "(''b'', ''a'') \<in> depends_on ?ctx" by simp
  then have "(''b'', ''a'') \<in> (depends_on ?ctx)\<^sup>+" by (rule r_into_trancl)
  with topological_order_respects_dependencies[OF adj acyc] order
  show ?thesis by auto
qed

text \<open>
  Claim C3. When the dependency graph of the loaded views has a cycle,
  \<^verbatim>\<open>view_topological_order\<close> raises the exception that names a view of a cycle (the
  cyclic dependency error of the specification), and \<^verbatim>\<open>trigger_all\<close> raises it before
  anything is sent to the warehouse: the world is the one it was given.
\<close>

theorem cyclic_dependency_fails_before_sql:
  assumes "adjacency_lists ctx = Inr adj" and "\<not> acyclic (depends_on ctx)"
  shows "\<exists>v. (v, v) \<in> (depends_on ctx)\<^sup>+
           \<and> view_topological_order ctx = Inl (CircularDependency v)
           \<and> trigger_all conn ctx w = (Inl (CircularDependency v), w)"
proof -
  from cyclic_graph_refused[OF dependency_edges_adjacency_lists[OF assms(1)] assms(2)]
  obtain v where v: "(v, v) \<in> (depends_on ctx)\<^sup>+"
    and "visit_unvisited adj (map snd (views ctx)) initial_dfs_state
           = Inl (CircularDependency v)" by blast
  with assms(1) have "view_topological_order ctx = Inl (CircularDependency v)"
    by (simp add: view_topological_order_def)
  moreover from this have "trigger_all conn ctx w = (Inl (CircularDependency v), w)"
    by (simp add: trigger_all_def)
  ultimately show ?thesis using v by blast
qed

theorem cyclic_dependency_fails_before_sql_witness:
  "view_topological_order
     (postgresql_context [pdt_view ''a'' ''select ${b.x}'' ''select 2'',
                          pdt_view ''b'' ''select ${a.y}'' ''select 2''])
     = Inl (CircularDependency ''a'')
   \<and> trigger_all scripted_connection
     (postgresql_context [pdt_view ''a'' ''select ${b.x}'' ''select 2'',
                          pdt_view ''b'' ''select ${a.y}'' ''select 2''])
     (scripted_world [] Map.empty)
     = (Inl (CircularDependency ''a''), scripted_world [] Map.empty)"
proof -
  let ?ctx = "postgresql_context [pdt_view ''a'' ''select ${b.x}'' ''select 2'',
                                  pdt_view ''b'' ''select ${a.y}'' ''select 2'']"
  have adj: "adjacency_lists ?ctx = Inr [(''a'', [''b'']), (''b'', [''a''])]"
    by (simp add: order_defs view_model_defs)
  have "(''a'', ''b'') \<in> dependency_edges [(''a'', [''b'']), (''b'', [''a''])]"
    and "(''b'', ''a'') \<in> dependency_edges [(''a'', [''b'']), (''b'', [''a''])]"
    by (simp_all add: dependency_edges_def adjacent_def)
  with dependency_edges_adjacency_lists[OF adj]
  have "(''a'', ''b'') \<in> depends_on ?ctx" and "(''b'', ''a'') \<in> depends_on ?ctx"
    by simp_all
  then have "(''a'', ''a'') \<in> (depends_on ?ctx)\<^sup>+" by (blast intro: trancl_trans)
  then have cyc: "\<not> acyclic (depends_on ?ctx)" by (auto simp: acyclic_def)
  have order: "view_topological_order ?ctx = Inl (CircularDependency ''a'')"
    by (simp add: order_defs view_model_defs visit.simps)
  from cyclic_dependency_fails_before_sql[OF adj cyc,
      of scripted_connection "scripted_world [] Map.empty"] order
  show ?thesis by auto
qed

end
